theory Spec2Isabelle
  imports Complex_Main
begin

section \<open>Document index and relevance retrieval (docIndex)\<close>

text \<open>
  A shallow embedding of the document index module. The repository holds two variants of
  the module: one that reads PDFs through the command line tools \<^verbatim>\<open>pdfinfo\<close> and
  \<^verbatim>\<open>pdftotext\<close> (page by page), and one that reads them through \<^verbatim>\<open>pdfjs-dist\<close>.
  They differ in \<^verbatim>\<open>extractPdfChunks\<close> only; tokenizer, index build, scorer and retriever
  are the same text in both.

  Modelling decisions.
  \<^item> A JavaScript string is a \<^typ>\<open>string\<close>: a list of code units, here restricted to
    the code units \<open>0..255\<close>. \<^verbatim>\<open>length\<close> counts code units, as \<^verbatim>\<open>String.length\<close> does.
  \<^item> A JavaScript number that counts something (page, offset, frequency) is a \<^typ>\<open>nat\<close>;
    the parameters \<^verbatim>\<open>charBudget\<close> and \<^verbatim>\<open>topK\<close>, which a caller may pass negative, are
    \<^typ>\<open>int\<close>.
  \<^item> A score is a Number, an IEEE 754 double. A finite double is the \<^typ>\<open>real\<close> it denotes;
    what the engine does to Numbers (rounding after each operation, \<^verbatim>\<open>Math.log\<close>) is a record
    of functions, passed explicitly like the rest of the world outside the module.
  \<^item> The world outside the module (file system, child processes, the PDF parser) is
    a record of functions, passed explicitly.
  \<^item> An \<^verbatim>\<open>async\<close> function returns a promise: fulfilled with a value, or rejected when
    the body throws.
\<close>

subsection \<open>Characters and strings\<close>

definition isWhitespace :: "char \<Rightarrow> bool" where
  \<comment> \<open>the class \<^verbatim>\<open>\s\<close> of a regular expression, and what \<^verbatim>\<open>trim\<close> strips\<close>
  "isWhitespace c \<longleftrightarrow>
     c \<in> set [CHR 0x09, CHR 0x0A, CHR 0x0B, CHR 0x0C, CHR 0x0D, CHR 0x20, CHR 0xA0]"

definition isDigit :: "char \<Rightarrow> bool" where
  "isDigit c \<longleftrightarrow> 48 \<le> (of_char c :: nat) \<and> (of_char c :: nat) \<le> 57"

definition isLowerAlnum :: "char \<Rightarrow> bool" where
  \<comment> \<open>the class \<^verbatim>\<open>[a-z0-9]\<close>\<close>
  "isLowerAlnum c \<longleftrightarrow>
     (97 \<le> (of_char c :: nat) \<and> (of_char c :: nat) \<le> 122) \<or> isDigit c"

definition toLowerCase :: "char \<Rightarrow> char" where
  "toLowerCase c =
     (let n = (of_char c :: nat)
      in if (65 \<le> n \<and> n \<le> 90) \<or> (192 \<le> n \<and> n \<le> 222 \<and> n \<noteq> 215)
         then char_of (n + 32) else c)"

definition digitChar :: "nat \<Rightarrow> char" where
  "digitChar d = char_of (48 + d)"

fun showNat :: "nat \<Rightarrow> string" where
  \<comment> \<open>\<^verbatim>\<open>String(n)\<close> and \<^verbatim>\<open>`${n}`\<close> of a non-negative integer: its decimal digits\<close>
  "showNat n = (if n < 10 then [digitChar n] else showNat (n div 10) @ [digitChar (n mod 10)])"

declare showNat.simps [simp del]

fun join :: "string \<Rightarrow> string list \<Rightarrow> string" where
  \<comment> \<open>\<^verbatim>\<open>xs.join(sep)\<close>\<close>
  "join sep [] = []"
| "join sep [x] = x"
| "join sep (x # y # ys) = x @ sep @ join sep (y # ys)"

definition slice :: "'a list \<Rightarrow> nat \<Rightarrow> nat \<Rightarrow> 'a list" where
  \<comment> \<open>\<^verbatim>\<open>s.slice(a, b)\<close> for non-negative \<open>a\<close> and \<open>b\<close>\<close>
  "slice s a b = take (b - a) (drop a s)"

definition sliceTo :: "'a list \<Rightarrow> int \<Rightarrow> 'a list" where
  \<comment> \<open>\<^verbatim>\<open>xs.slice(0, k)\<close>: a negative \<open>k\<close> counts from the end\<close>
  "sliceTo xs k = take (nat (if k < 0 then int (length xs) + k else k)) xs"

function collapseWhitespace :: "string \<Rightarrow> string" where
  \<comment> \<open>\<^verbatim>\<open>input.replace(/\s+/g, " ")\<close>\<close>
  "collapseWhitespace [] = []"
| "collapseWhitespace (c # cs) =
     (if isWhitespace c then CHR '' '' # collapseWhitespace (dropWhile isWhitespace cs)
      else c # collapseWhitespace cs)"
  by pat_completeness auto
termination
  by (relation "measure length") (auto simp: length_dropWhile_le less_Suc_eq_le)

definition trim :: "string \<Rightarrow> string" where
  "trim s = rev (dropWhile isWhitespace (rev (dropWhile isWhitespace s)))"

definition normalizeWhitespace :: "string \<Rightarrow> string" where
  "normalizeWhitespace input = trim (collapseWhitespace input)"

function splitWhitespace :: "string \<Rightarrow> string \<Rightarrow> string list" where
  \<comment> \<open>\<^verbatim>\<open>s.split(/\s+/)\<close>, the first argument holding the piece read so far\<close>
  "splitWhitespace cur [] = [cur]"
| "splitWhitespace cur (c # cs) =
     (if isWhitespace c then cur # splitWhitespace [] (dropWhile isWhitespace cs)
      else splitWhitespace (cur @ [c]) cs)"
  by pat_completeness auto
termination
  by (relation "measure (\<lambda>(cur, s). length s)") (auto simp: length_dropWhile_le less_Suc_eq_le)

definition tokenize :: "string \<Rightarrow> string list" where
  "tokenize txt =
     filter (\<lambda>t. t \<noteq> [])
       (splitWhitespace []
         (map (\<lambda>c. if isLowerAlnum c \<or> isWhitespace c then c else CHR '' '')
           (map toLowerCase txt)))"

definition basename :: "string \<Rightarrow> string" where
  \<comment> \<open>\<^verbatim>\<open>path.basename(p)\<close> on POSIX: the last segment, trailing slashes dropped\<close>
  "basename p =
     rev (takeWhile (\<lambda>c. c \<noteq> CHR ''/'') (dropWhile (\<lambda>c. c = CHR ''/'') (rev p)))"

definition isAbsolute :: "string \<Rightarrow> bool" where
  "isAbsolute p \<longleftrightarrow> (case p of [] \<Rightarrow> False | c # _ \<Rightarrow> c = CHR ''/'')"

subsection \<open>Data model\<close>

record IndexedChunk =
  chunkId :: string
  docPath :: string
  docName :: string
  page :: nat
  chunkText :: string

record IndexState =
  chunks :: "IndexedChunk list"
  df :: "string \<rightharpoonup> nat"
  totalChunks :: nat

record Segment =
  segDocName :: string
  segPage :: nat
  charCount :: nat

record RetrievedContext =
  contextText :: string
  segments :: "Segment list"

datatype 'a promise = Fulfilled 'a | Rejected string

subsection \<open>Chunking\<close>

definition targetChunkChars :: nat where
  "targetChunkChars = 900"

function chunkLoop :: "string \<Rightarrow> string \<Rightarrow> nat \<Rightarrow> string \<Rightarrow> nat \<Rightarrow> IndexedChunk list" where
  \<comment> \<open>\<^verbatim>\<open>for (let i = 0; i < pageText.length; i += targetChunkChars) chunks.push(...)\<close>,
      from offset \<open>i\<close> on\<close>
  "chunkLoop absPath dName p pageText i =
     (if i < length pageText
      then \<lparr>chunkId = dName @ ''-p'' @ showNat p @ ''-'' @ showNat i,
            docPath = absPath, docName = dName, page = p,
            chunkText = slice pageText i (min (i + targetChunkChars) (length pageText))\<rparr>
           # chunkLoop absPath dName p pageText (i + targetChunkChars)
      else [])"
  by pat_completeness auto
termination
  by (relation "measure (\<lambda>(a, d, p, t, i). length t - i)") (auto simp: targetChunkChars_def)

declare chunkLoop.simps [simp del]

text \<open>The variant on \<^verbatim>\<open>pdfinfo\<close> and \<^verbatim>\<open>pdftotext\<close>.\<close>

record Env =
  existsSync :: "string \<Rightarrow> bool"
  resolve :: "string \<Rightarrow> string"
    \<comment> \<open>\<^verbatim>\<open>path.resolve(process.cwd(), p)\<close>\<close>
  execFileSync :: "string \<Rightarrow> string list \<Rightarrow> string option"
    \<comment> \<open>the standard output of a command, \<open>None\<close> when it throws\<close>

definition run :: "Env \<Rightarrow> string \<Rightarrow> string list \<Rightarrow> string" where
  "run env cmd args = (case execFileSync env cmd args of Some out \<Rightarrow> out | None \<Rightarrow> [])"

definition matchPagesHere :: "string \<Rightarrow> string option" where
  \<comment> \<open>\<^verbatim>\<open>/Pages:\s+(\d+)/\<close> anchored at the head of the string: the captured digits\<close>
  "matchPagesHere s =
     (if take 6 s = ''Pages:''
      then let r = drop 6 s;
               ds = takeWhile isDigit (dropWhile isWhitespace r)
           in if takeWhile isWhitespace r \<noteq> [] \<and> ds \<noteq> [] then Some ds else None
      else None)"

fun matchPages :: "string \<Rightarrow> string option" where
  \<comment> \<open>\<^verbatim>\<open>info.match(/Pages:\s+(\d+)/)\<close>: the leftmost match\<close>
  "matchPages [] = None"
| "matchPages (c # cs) =
     (case matchPagesHere (c # cs) of Some ds \<Rightarrow> Some ds | None \<Rightarrow> matchPages cs)"

definition parseInt :: "string \<Rightarrow> nat" where
  \<comment> \<open>\<^verbatim>\<open>parseInt(ds, 10)\<close> of a string of digits\<close>
  "parseInt ds = fold (\<lambda>c n. 10 * n + ((of_char c :: nat) - 48)) ds 0"

definition pageCount :: "Env \<Rightarrow> string \<Rightarrow> nat" where
  "pageCount env absPath =
     (case matchPages (run env ''pdfinfo'' [absPath]) of
        Some ds \<Rightarrow> parseInt ds
      | None \<Rightarrow> 0)"

definition extractRange :: "Env \<Rightarrow> string \<Rightarrow> nat option \<Rightarrow> nat option \<Rightarrow> string" where
  "extractRange env absPath fromPage toPage =
     normalizeWhitespace
       (run env ''pdftotext''
          ([''-enc'', ''UTF-8'', ''-layout'', ''-nopgbrk'']
           @ (case (fromPage, toPage) of
                (Some f, Some t) \<Rightarrow>
                  if f \<noteq> 0 \<and> t \<noteq> 0 then [''-f'', showNat f, ''-l'', showNat t] else []
              | _ \<Rightarrow> [])
           @ [absPath, ''-'']))"

definition pageChunks :: "Env \<Rightarrow> string \<Rightarrow> nat \<Rightarrow> IndexedChunk list" where
  \<comment> \<open>the body of the loop over the pages, for page \<open>p\<close>\<close>
  "pageChunks env absPath p =
     (let pageText = extractRange env absPath (Some p) (Some p)
      in if pageText = [] then [] else chunkLoop absPath (basename absPath) p pageText 0)"

definition extractPdfChunks :: "Env \<Rightarrow> string \<Rightarrow> IndexedChunk list" where
  "extractPdfChunks env absPath =
     (let pages = pageCount env absPath
      in if pages > 0
         then concat (map (pageChunks env absPath) [1..<Suc pages])
         else let all = extractRange env absPath None None
              in if all \<noteq> [] then chunkLoop absPath (basename absPath) 1 all 0 else [])"

text \<open>The variant on \<^verbatim>\<open>pdfjs-dist\<close>.\<close>

record EnvJs =
  existsSyncJs :: "string \<Rightarrow> bool"
  resolveJs :: "string \<Rightarrow> string"
  getDocument :: "string \<Rightarrow> string list list option"
    \<comment> \<open>the pages of the parsed file, each the \<^verbatim>\<open>str\<close> of its text items; \<open>None\<close> when
        reading or parsing throws\<close>

definition fullTextOf :: "string list list \<Rightarrow> string" where
  "fullTextOf pdf = concat (map (\<lambda>items. join '' '' items @ '' '') pdf)"

definition extractPdfChunksJs :: "EnvJs \<Rightarrow> string \<Rightarrow> IndexedChunk list" where
  "extractPdfChunksJs env absPath =
     (case getDocument env absPath of
        None \<Rightarrow> []
      | Some pdf \<Rightarrow>
          let normalizedText = normalizeWhitespace (fullTextOf pdf)
          in if normalizedText = [] then []
             else chunkLoop absPath (basename absPath) 1 normalizedText 0)"

subsection \<open>Index build\<close>

definition getOr0 :: "(string \<rightharpoonup> nat) \<Rightarrow> string \<Rightarrow> nat" where
  \<comment> \<open>\<^verbatim>\<open>m.get(k) || 0\<close>\<close>
  "getOr0 m k = (case m k of None \<Rightarrow> 0 | Some v \<Rightarrow> v)"

definition increment :: "string \<Rightarrow> (string \<rightharpoonup> nat) \<Rightarrow> (string \<rightharpoonup> nat)" where
  \<comment> \<open>\<^verbatim>\<open>m.set(k, (m.get(k) || 0) + 1)\<close>\<close>
  "increment k m = m(k \<mapsto> getOr0 m k + 1)"

definition uniqueTerms :: "string list \<Rightarrow> string list" where
  \<comment> \<open>\<^verbatim>\<open>new Set(tokens)\<close>, in its iteration order: first occurrences\<close>
  "uniqueTerms ts = rev (remdups (rev ts))"

definition buildDf :: "IndexedChunk list \<Rightarrow> (string \<rightharpoonup> nat)" where
  "buildDf allChunks =
     fold (\<lambda>chunk m. fold increment (uniqueTerms (tokenize (chunkText chunk))) m) allChunks Map.empty"

definition indexOf :: "IndexedChunk list \<Rightarrow> IndexState" where
  \<comment> \<open>the end of \<^verbatim>\<open>buildIndex\<close>, from \<^verbatim>\<open>allChunks\<close> on\<close>
  "indexOf allChunks =
     \<lparr>chunks = allChunks, df = buildDf allChunks, totalChunks = length allChunks\<rparr>"

definition buildIndex :: "Env \<Rightarrow> string list \<Rightarrow> IndexState" where
  \<comment> \<open>\<open>filePaths\<close> is the list of configured locations\<close>
  "buildIndex env filePaths =
     indexOf (concat (map (\<lambda>p. let abs = (if isAbsolute p then p else resolve env p)
                               in if existsSync env abs then extractPdfChunks env abs else [])
                          filePaths))"

definition buildIndexJs :: "EnvJs \<Rightarrow> string list \<Rightarrow> IndexState" where
  "buildIndexJs env filePaths =
     indexOf (concat (map (\<lambda>p. let abs = (if isAbsolute p then p else resolveJs env p)
                               in if existsSyncJs env abs then extractPdfChunksJs env abs else [])
                          filePaths))"

subsection \<open>Scoring\<close>

definition termCountsOf :: "string list \<Rightarrow> (string \<rightharpoonup> nat)" where
  "termCountsOf textTokens = fold increment textTokens Map.empty"

definition docFreqOf :: "(string \<rightharpoonup> nat) \<Rightarrow> string \<Rightarrow> nat" where
  \<comment> \<open>\<^verbatim>\<open>df.get(qt) || 1\<close>\<close>
  "docFreqOf m qt = (case m qt of None \<Rightarrow> 1 | Some v \<Rightarrow> if v = 0 then 1 else v)"

text \<open>
  The arithmetic of Numbers. Addition, multiplication and division of two Numbers give the
  exact result, rounded to a Number (IEEE 754); \<^verbatim>\<open>Math.log\<close> gives an approximation that the
  language leaves to the engine. No operand of \<^verbatim>\<open>scoreChunk\<close> is zero, negative or infinite
  where that would matter (the quotient is one of two positive counts), so the operations
  stay within the finite Numbers.
\<close>

record Numbers =
  roundNumber :: "real \<Rightarrow> real"
    \<comment> \<open>the Number that an exact result is rounded to\<close>
  mathLog :: "real \<Rightarrow> real"
    \<comment> \<open>\<^verbatim>\<open>Math.log\<close>\<close>

definition scoreChunk ::
  "Numbers \<Rightarrow> string list \<Rightarrow> IndexedChunk \<Rightarrow> (string \<rightharpoonup> nat) \<Rightarrow> nat \<Rightarrow> real" where
  "scoreChunk nb queryTokens chunk dfm totalN =
     (let termCounts = termCountsOf (tokenize (chunkText chunk))
      in fold (\<lambda>qt score.
                 let tf = getOr0 termCounts qt
                 in if tf = 0 then score
                    else let docFreq = docFreqOf dfm qt;
                             idf = mathLog nb
                                     (roundNumber nb
                                        (roundNumber nb (real totalN + 1)
                                           / roundNumber nb (real docFreq + 1)))
                         in roundNumber nb (score + roundNumber nb (real tf * idf)))
              queryTokens 0)"

subsection \<open>Retrieval\<close>

definition pickChunks ::
  "Numbers \<Rightarrow> IndexState \<Rightarrow> string \<Rightarrow> int \<Rightarrow> (IndexedChunk \<times> real) list" where
  \<comment> \<open>\<^verbatim>\<open>picked\<close>: score all, sort by descending score (the sort is stable; the comparator
      \<^verbatim>\<open>b.s - a.s\<close> of two Numbers has the sign of their comparison), keep the positive ones up
      to \<open>topK\<close>, and fall back to the head of the sorted list\<close>
  "pickChunks nb index query topK =
     (let qTokens = tokenize query;
          scoredAll = sort_key (\<lambda>x. - snd x)
                        (map (\<lambda>c. (c, scoreChunk nb qTokens c (df index) (totalChunks index)))
                             (chunks index));
          picked = sliceTo (filter (\<lambda>x. snd x > 0) scoredAll) topK
      in if length picked = 0 then sliceTo scoredAll topK else picked)"

definition headerOf :: "IndexedChunk \<Rightarrow> string" where
  "headerOf c = ''['' @ docName c @ '' p.'' @ showNat (page c) @ '']''"

definition blockOf :: "IndexedChunk \<Rightarrow> string" where
  "blockOf c = headerOf c @ [CHR 0x0A] @ normalizeWhitespace (chunkText c)"

definition segmentOf :: "IndexedChunk \<Rightarrow> Segment" where
  \<comment> \<open>\<^verbatim>\<open>{ docName: c.docName, page: c.page, charCount: block.length }\<close>\<close>
  "segmentOf c = \<lparr>segDocName = docName c, segPage = page c, charCount = length (blockOf c)\<rparr>"

fun assemble :: "int \<Rightarrow> int \<Rightarrow> IndexedChunk list \<Rightarrow> (string \<times> Segment) list" where
  \<comment> \<open>the assembly loop with \<open>used\<close> characters spent: the blocks pushed on \<^verbatim>\<open>lines\<close>, each
      with the segment pushed beside it\<close>
  "assemble charBudget used [] = []"
| "assemble charBudget used (c # cs) =
     (let block = blockOf c
      in if used + int (length block) + 4 > charBudget then []
         else (block, segmentOf c)
              # assemble charBudget (used + int (length block) + 4) cs)"

definition contextPrefix :: string where
  "contextPrefix =
     ''Relevant document excerpts (use for reference; cite when useful):'' @ [CHR 0x0A, CHR 0x0A]"

definition blockSeparator :: string where
  "blockSeparator = [CHR 0x0A, CHR 0x0A] @ ''---'' @ [CHR 0x0A, CHR 0x0A]"

definition getRelevantContext ::
  "Numbers \<Rightarrow> IndexState \<Rightarrow> string \<Rightarrow> int \<Rightarrow> int \<Rightarrow> RetrievedContext option promise" where
  \<comment> \<open>\<open>index\<close> is what \<^verbatim>\<open>ensureIndex()\<close> resolves to, \<open>nb\<close> the engine's arithmetic\<close>
  "getRelevantContext nb index query charBudget topK =
     (if totalChunks index = 0 then Fulfilled None
      else let picked = pickChunks nb index query topK;
               included = assemble charBudget 0 (map fst picked)
           in if length included = 0 then Fulfilled None
              else Fulfilled (Some \<lparr>contextText = contextPrefix @ join blockSeparator (map fst included),
                                    segments = map snd included\<rparr>))"

subsection \<open>Notions used in the statements\<close>

text \<open>
  These are not part of the program: they name what the properties below speak about.
\<close>

definition chunksWith :: "string \<Rightarrow> IndexedChunk list \<Rightarrow> nat" where
  \<comment> \<open>the number of chunks whose token list contains \<open>t\<close>\<close>
  "chunksWith t cs = length (filter (\<lambda>c. t \<in> set (tokenize (chunkText c))) cs)"

definition noZero :: "(string \<rightharpoonup> nat) \<Rightarrow> bool" where
  \<comment> \<open>no key of the table is mapped to 0\<close>
  "noZero m \<longleftrightarrow> (\<forall>k v. m k = Some v \<longrightarrow> 0 < v)"

definition idfOf :: "Numbers \<Rightarrow> (string \<rightharpoonup> nat) \<Rightarrow> nat \<Rightarrow> string \<Rightarrow> real" where
  \<comment> \<open>\<^verbatim>\<open>idf\<close> for a query token, as \<^verbatim>\<open>scoreChunk\<close> computes it\<close>
  "idfOf nb dfm N qt =
     mathLog nb (roundNumber nb (roundNumber nb (real N + 1)
                                   / roundNumber nb (real (docFreqOf dfm qt) + 1)))"

definition addTerm ::
  "Numbers \<Rightarrow> string list \<Rightarrow> (string \<rightharpoonup> nat) \<Rightarrow> nat \<Rightarrow> string \<Rightarrow> real \<Rightarrow> real" where
  \<comment> \<open>one turn of the loop over the query tokens, for a chunk with the tokens \<open>toks\<close>\<close>
  "addTerm nb toks dfm N qt score =
     (if count_list toks qt = 0 then score
      else roundNumber nb (score + roundNumber nb (real (count_list toks qt) * idfOf nb dfm N qt)))"

definition signSafe :: "Numbers \<Rightarrow> bool" where
  \<comment> \<open>what the sign of a score rests on: rounding is monotone and keeps 0 and 1, and
      \<^verbatim>\<open>Math.log\<close> is not negative from 1 on\<close>
  "signSafe nb \<longleftrightarrow>
     (\<forall>x y. x \<le> y \<longrightarrow> roundNumber nb x \<le> roundNumber nb y)
     \<and> roundNumber nb 0 = 0 \<and> roundNumber nb 1 = 1
     \<and> (\<forall>y. 1 \<le> y \<longrightarrow> 0 \<le> mathLog nb y)"

definition soundNumbers :: "Numbers \<Rightarrow> nat \<Rightarrow> bool" where
  \<comment> \<open>what a positive score rests on, for counts up to \<open>N + 1\<close>: the counts are Numbers, the
      quotient of a larger by a smaller count rounds to more than 1, and \<^verbatim>\<open>Math.log\<close> returns
      a positive Number above 1\<close>
  "soundNumbers nb N \<longleftrightarrow>
     signSafe nb
     \<and> (\<forall>n\<le>N + 1. roundNumber nb (real n) = real n)
     \<and> (\<forall>a b. 0 < b \<and> b < a \<and> a \<le> N + 1 \<longrightarrow> 1 < roundNumber nb (real a / real b))
     \<and> (\<forall>y. 1 < y \<longrightarrow> 0 < mathLog nb y)
     \<and> (\<forall>y. roundNumber nb (mathLog nb y) = mathLog nb y)"

definition exactNumbers :: Numbers where
  \<comment> \<open>arithmetic without rounding error\<close>
  "exactNumbers = \<lparr>roundNumber = (\<lambda>x. x), mathLog = ln\<rparr>"

definition scoreAt :: "Numbers \<Rightarrow> IndexedChunk list \<Rightarrow> string \<Rightarrow> nat \<Rightarrow> real" where
  \<comment> \<open>the score of the chunk at position \<open>i\<close> of the index over \<open>cs\<close>\<close>
  "scoreAt nb cs query i = scoreChunk nb (tokenize query) (cs ! i) (buildDf cs) (length cs)"

definition rankBefore :: "(nat \<Rightarrow> real) \<Rightarrow> nat \<Rightarrow> nat \<Rightarrow> bool" where
  \<comment> \<open>position \<open>i\<close> ranks before position \<open>j\<close>: a higher score, or the same score and
      earlier in the index\<close>
  "rankBefore sc i j \<longleftrightarrow> sc i > sc j \<or> (sc i = sc j \<and> i < j)"

definition blockCost :: "IndexedChunk list \<Rightarrow> int" where
  \<comment> \<open>what the blocks of these chunks spend of the budget: each its length and 4\<close>
  "blockCost cs = (\<Sum>c\<leftarrow>cs. int (length (blockOf c)) + 4)"

definition segmentCost :: "Segment list \<Rightarrow> int" where
  \<comment> \<open>the same sum, read off the segments of a result\<close>
  "segmentCost ss = (\<Sum>s\<leftarrow>ss. int (charCount s) + 4)"

definition idOf :: "string \<Rightarrow> nat \<Rightarrow> nat \<Rightarrow> string" where
  \<comment> \<open>the identifier of the chunk of document \<open>d\<close>, page \<open>p\<close>, offset \<open>k\<close>\<close>
  "idOf d p k = d @ ''-p'' @ showNat p @ ''-'' @ showNat k"

definition absolute :: "Env \<Rightarrow> string \<Rightarrow> string" where
  \<comment> \<open>\<^verbatim>\<open>abs\<close> in \<^verbatim>\<open>buildIndex\<close>\<close>
  "absolute env p = (if isAbsolute p then p else resolve env p)"

definition absoluteJs :: "EnvJs \<Rightarrow> string \<Rightarrow> string" where
  "absoluteJs env p = (if isAbsolute p then p else resolveJs env p)"

subsection \<open>IEEE 754 doubles\<close>

text \<open>
  The Numbers that an engine runs the scorer on: binary64, every result rounded to the
  nearest double, ties to the even significand. The range of exponents is not bounded here
  (no overflow, no subnormal numbers).
\<close>

definition roundToEven :: "real \<Rightarrow> int" where
  \<comment> \<open>the nearest integer, the even one of two that are equally near\<close>
  "roundToEven y =
     (let f = \<lfloor>y\<rfloor>; r = y - of_int f
      in if r < 1 / 2 then f else if 1 / 2 < r then f + 1 else if even f then f else f + 1)"

function scaleUp :: "real \<Rightarrow> nat \<Rightarrow> nat" where
  \<comment> \<open>counting up from \<open>k\<close>, the first exponent at which a positive \<open>x\<close>, multiplied by
      that power of two, is \<open>2\<^sup>5\<^sup>2\<close> or more\<close>
  "scaleUp x k = (if 0 < x \<and> x * 2 ^ k < 2 ^ 52 then scaleUp x (Suc k) else k)"
  by pat_completeness auto
termination
proof (relation "measure (\<lambda>(x, k). nat \<lceil>2 ^ 52 / (x * 2 ^ k)\<rceil>)", goal_cases)
  case 1
  then show ?case by simp
next
  case (2 x k)
  have halve: "nat \<lceil>r / 2\<rceil> < nat \<lceil>r\<rceil>" if "1 < r" for r :: real
  proof -
    from that have c: "2 \<le> \<lceil>r\<rceil>" by linarith
    have "r \<le> of_int \<lceil>r\<rceil>" by simp
    moreover from c have "2 \<le> real_of_int \<lceil>r\<rceil>"
      using of_int_le_iff [of 2 "\<lceil>r\<rceil>", where 'a = real] by simp
    ultimately have "r / 2 \<le> real_of_int \<lceil>r\<rceil> - 1" by linarith
    then have "r / 2 \<le> of_int (\<lceil>r\<rceil> - 1)" by simp
    then have "\<lceil>r / 2\<rceil> \<le> \<lceil>r\<rceil> - 1" by (simp only: ceiling_le_iff)
    with c show ?thesis by linarith
  qed
  have eq: "2 ^ 52 / (x * 2 ^ Suc k) = 2 ^ 52 / (x * 2 ^ k) / 2" by simp
  from 2 have "1 < 2 ^ 52 / (x * 2 ^ k)" by (simp only: less_divide_eq) simp
  from halve [OF this] show ?case by (simp only: in_measure prod.case eq)
qed

function scaleDown :: "real \<Rightarrow> nat \<Rightarrow> nat" where
  \<comment> \<open>counting up from \<open>k\<close>, the first exponent at which \<open>x\<close>, divided by that power of
      two, is below \<open>2\<^sup>5\<^sup>3\<close>\<close>
  "scaleDown x k = (if 2 ^ 53 \<le> x / 2 ^ k then scaleDown x (Suc k) else k)"
  by pat_completeness auto
termination
proof (relation "measure (\<lambda>(x, k). nat \<lceil>x / 2 ^ k\<rceil>)", goal_cases)
  case 1
  then show ?case by simp
next
  case (2 x k)
  have halve: "nat \<lceil>r / 2\<rceil> < nat \<lceil>r\<rceil>" if "1 < r" for r :: real
  proof -
    from that have c: "2 \<le> \<lceil>r\<rceil>" by linarith
    have "r \<le> of_int \<lceil>r\<rceil>" by simp
    moreover from c have "2 \<le> real_of_int \<lceil>r\<rceil>"
      using of_int_le_iff [of 2 "\<lceil>r\<rceil>", where 'a = real] by simp
    ultimately have "r / 2 \<le> real_of_int \<lceil>r\<rceil> - 1" by linarith
    then have "r / 2 \<le> of_int (\<lceil>r\<rceil> - 1)" by simp
    then have "\<lceil>r / 2\<rceil> \<le> \<lceil>r\<rceil> - 1" by (simp only: ceiling_le_iff)
    with c show ?thesis by linarith
  qed
  have eq: "x / 2 ^ Suc k = x / 2 ^ k / 2" by simp
  have "(1::real) < 2 ^ 53" by simp
  with 2 have "1 < x / 2 ^ k" by linarith
  from halve [OF this] show ?case by (simp only: in_measure prod.case eq)
qed

declare scaleUp.simps [simp del] scaleDown.simps [simp del]

definition roundBinary64 :: "real \<Rightarrow> real" where
  \<comment> \<open>the nearest double: the magnitude is scaled to a significand of 53 bits, which is
      rounded to an integer and scaled back\<close>
  "roundBinary64 x =
     (if x = 0 then 0
      else let a = \<bar>x\<bar>;
               r = (if a < 2 ^ 53
                    then of_int (roundToEven (a * 2 ^ scaleUp a 0)) / 2 ^ scaleUp a 0
                    else of_int (roundToEven (a / 2 ^ scaleDown a 0)) * 2 ^ scaleDown a 0)
           in if 0 < x then r else - r)"

definition doubleNumbers :: Numbers where
  \<comment> \<open>the arithmetic of doubles. \<^verbatim>\<open>Math.log\<close> has, at the three arguments that the examples
      below compute with, the values that V8 returns there (its \<^verbatim>\<open>Math.log\<close> is a port of the
      one of fdlibm: at 2 and at 1.5 the double nearest to the logarithm, at 3 the double
      next below the nearest one), and elsewhere the double nearest to the logarithm\<close>
  "doubleNumbers =
     \<lparr>roundNumber = roundBinary64,
      mathLog = (\<lambda>y. if y = 3 then 2473854946935173 / 2 ^ 51
                      else if y = 2 then 6243314768165359 / 2 ^ 53
                      else if y = 3 / 2 then 1826052509787667 / 2 ^ 52
                      else roundBinary64 (ln y))\<rparr>"

subsection \<open>Example inputs\<close>

definition exampleEnv :: Env where
  \<comment> \<open>a three-page file \<^verbatim>\<open>/docs/a.pdf\<close> whose last page is blank, a one-page file of the
      same name in another directory, and a one-page file \<^verbatim>\<open>/docs/b.pdf\<close>\<close>
  "exampleEnv =
     \<lparr>existsSync = (\<lambda>p. p = ''/docs/a.pdf'' \<or> p = ''/archive/a.pdf'' \<or> p = ''/docs/b.pdf''),
      resolve = (\<lambda>p. ''/app/'' @ p),
      execFileSync = (\<lambda>cmd args.
        if cmd = ''pdfinfo'' \<and> args = [''/docs/a.pdf''] then Some ''Title: Spec Pages:          3''
        else if cmd = ''pdfinfo'' \<and> args = [''/archive/a.pdf''] then Some ''Pages: 1''
        else if cmd = ''pdfinfo'' \<and> args = [''/docs/b.pdf''] then Some ''Pages: 1''
        else if cmd = ''pdftotext'' \<and> args = [''-enc'', ''UTF-8'', ''-layout'', ''-nopgbrk'',
               ''-f'', ''1'', ''-l'', ''1'', ''/docs/a.pdf'', ''-'']
          then Some ''  Floors must   be swept daily. ''
        else if cmd = ''pdftotext'' \<and> args = [''-enc'', ''UTF-8'', ''-layout'', ''-nopgbrk'',
               ''-f'', ''2'', ''-l'', ''2'', ''/docs/a.pdf'', ''-'']
          then Some ''Trash.''
        else if cmd = ''pdftotext'' \<and> args = [''-enc'', ''UTF-8'', ''-layout'', ''-nopgbrk'',
               ''-f'', ''3'', ''-l'', ''3'', ''/docs/a.pdf'', ''-'']
          then Some ''   ''
        else if cmd = ''pdftotext'' \<and> args = [''-enc'', ''UTF-8'', ''-layout'', ''-nopgbrk'',
               ''-f'', ''1'', ''-l'', ''1'', ''/archive/a.pdf'', ''-'']
          then Some ''Old floors.''
        else if cmd = ''pdftotext'' \<and> args = [''-enc'', ''UTF-8'', ''-layout'', ''-nopgbrk'',
               ''-f'', ''1'', ''-l'', ''1'', ''/docs/b.pdf'', ''-'']
          then Some ''Mop the floors.''
        else None)\<rparr>"

definition exampleEnvJs :: EnvJs where
  \<comment> \<open>a two-page file and a one-page file, as the PDF parser hands them over\<close>
  "exampleEnvJs =
     \<lparr>existsSyncJs = (\<lambda>p. p = ''/docs/a.pdf'' \<or> p = ''/docs/b.pdf''),
      resolveJs = (\<lambda>p. ''/app/'' @ p),
      getDocument = (\<lambda>p. if p = ''/docs/a.pdf''
                          then Some [[''Floors must be'', ''swept daily.''], [''Trash.'']]
                          else if p = ''/docs/b.pdf'' then Some [[''Mop the'', ''floors.'']]
                          else None)\<rparr>"

definition exampleChunk :: "string \<Rightarrow> nat \<Rightarrow> string \<Rightarrow> IndexedChunk" where
  \<comment> \<open>the only chunk of page \<open>p\<close> of \<^verbatim>\<open>/docs/d\<close>, when the page text \<open>t\<close> has at most 900
      characters\<close>
  "exampleChunk d p t =
     \<lparr>chunkId = d @ ''-p'' @ showNat p @ ''-0'', docPath = ''/docs/'' @ d, docName = d,
      page = p, chunkText = t\<rparr>"

definition exampleCorpus :: "IndexedChunk list" where
  \<comment> \<open>the chunks of \<^verbatim>\<open>/docs/a.pdf\<close> in \<open>exampleEnv\<close>\<close>
  "exampleCorpus =
     [exampleChunk ''a.pdf'' 1 ''Floors must be swept daily.'', exampleChunk ''a.pdf'' 2 ''Trash.'']"

definition fivePages :: "IndexedChunk list" where
  \<comment> \<open>five pages of one file. The query \<^verbatim>\<open>bin bag mop\<close> gives the first two the same score
      when nothing is rounded, \<open>3 ln 3 = 3 ln 2 + 3 ln 1.5\<close>, and not the same double\<close>
  "fivePages =
     [exampleChunk ''c.pdf'' 1 ''bin bin bin'',
      exampleChunk ''c.pdf'' 2 ''bag mop bag mop bag mop'',
      exampleChunk ''c.pdf'' 3 ''bag mop'',
      exampleChunk ''c.pdf'' 4 ''mop'',
      exampleChunk ''c.pdf'' 5 ''floor'']"

section \<open>Properties\<close>

subsection \<open>Document frequency\<close>

lemma getOr0_increment:
  "getOr0 (increment k m) t = (if t = k then getOr0 m k + 1 else getOr0 m t)"
  by (simp add: getOr0_def increment_def)

lemma getOr0_fold_increment:
  "getOr0 (fold increment ts m) t = getOr0 m t + count_list ts t"
  by (induction ts arbitrary: m) (auto simp: getOr0_increment)

lemma count_list_distinct:
  "distinct ts \<Longrightarrow> count_list ts t = (if t \<in> set ts then 1 else 0)"
  by (induction ts) auto

lemma uniqueTerms_props: "distinct (uniqueTerms ts)" "set (uniqueTerms ts) = set ts"
  by (simp_all add: uniqueTerms_def)

lemma getOr0_df_loop:
  "getOr0 (fold (\<lambda>chunk m. fold increment (uniqueTerms (tokenize (chunkText chunk))) m) cs m0) t
     = getOr0 m0 t + chunksWith t cs"
  by (induction cs arbitrary: m0)
     (auto simp: chunksWith_def getOr0_fold_increment count_list_distinct uniqueTerms_props)

lemma noZero_increment: "noZero m \<Longrightarrow> noZero (increment k m)"
  by (simp add: noZero_def increment_def)

lemma noZero_fold_increment: "noZero m \<Longrightarrow> noZero (fold increment ts m)"
  by (induction ts arbitrary: m) (auto simp: noZero_increment)

lemma noZero_df_loop:
  "noZero m0 \<Longrightarrow>
   noZero (fold (\<lambda>chunk m. fold increment (uniqueTerms (tokenize (chunkText chunk))) m) cs m0)"
  by (induction cs arbitrary: m0) (auto simp: noZero_fold_increment)

lemma noZero_lookup: "noZero m \<Longrightarrow> m t = (if getOr0 m t = 0 then None else Some (getOr0 m t))"
  by (cases "m t") (auto simp: noZero_def getOr0_def)

lemma buildDf_lookup:
  "buildDf cs t = (if chunksWith t cs = 0 then None else Some (chunksWith t cs))"
proof -
  have "noZero (buildDf cs)"
    unfolding buildDf_def by (rule noZero_df_loop) (simp add: noZero_def)
  moreover have "getOr0 (buildDf cs) t = chunksWith t cs"
  proof -
    have "getOr0 Map.empty t = 0" by (simp add: getOr0_def)
    then show ?thesis unfolding buildDf_def by (simp only: getOr0_df_loop)
  qed
  ultimately show ?thesis
    by (simp add: noZero_lookup)
qed

subsection \<open>IEEE 754 doubles: properties\<close>

text \<open>
  A positive real \<open>x\<close> lies in one binade, \<open>2\<^sup>5\<^sup>2 2\<^sup>e \<le> x < 2\<^sup>5\<^sup>3 2\<^sup>e\<close>, and \<open>roundBinary64\<close> rounds
  \<open>x / 2\<^sup>e\<close> to an integer there, ties to even (lemma \<open>roundBinary64_eval\<close>). From this:
  rounding is monotone and idempotent, and it keeps the integers up to \<open>2\<^sup>5\<^sup>3\<close>.
\<close>

lemma scaleUp_spec:
  assumes "0 < x" and "x * 2 ^ k < 2 ^ 53"
  shows "2 ^ 52 \<le> x * 2 ^ scaleUp x k \<and> x * 2 ^ scaleUp x k < 2 ^ 53"
  using assms
proof (induction x k rule: scaleUp.induct)
  case (1 x k)
  show ?case
  proof (cases "x * 2 ^ k < 2 ^ 52")
    case True
    then have "x * 2 ^ Suc k < 2 ^ 53" by simp
    with "1.IH" "1.prems"(1) True show ?thesis
      by (subst scaleUp.simps, subst (2) scaleUp.simps) simp
  next
    case False
    with "1.prems" show ?thesis
      by (subst scaleUp.simps, subst (2) scaleUp.simps) simp
  qed
qed

lemma scaleDown_spec:
  assumes "2 ^ 52 \<le> x / 2 ^ k"
  shows "2 ^ 52 \<le> x / 2 ^ scaleDown x k \<and> x / 2 ^ scaleDown x k < 2 ^ 53"
  using assms
proof (induction x k rule: scaleDown.induct)
  case (1 x k)
  show ?case
  proof (cases "2 ^ 53 \<le> x / 2 ^ k")
    case True
    then have "2 ^ 52 \<le> x / 2 ^ Suc k" by simp
    with "1.IH" True show ?thesis
      by (subst scaleDown.simps, subst (2) scaleDown.simps) simp
  next
    case False
    with "1.prems" show ?thesis
      by (subst scaleDown.simps, subst (2) scaleDown.simps) simp
  qed
qed

lemma roundBinary64_pos_spec:
  assumes "0 < x"
  shows "\<exists>e::int. 2 ^ 52 * 2 powi e \<le> x \<and> x < 2 ^ 53 * 2 powi e
            \<and> roundBinary64 x = of_int (roundToEven (x / 2 powi e)) * 2 powi e"
proof (cases "x < 2 ^ 53")
  case True
  let ?k = "scaleUp x 0"
  from scaleUp_spec [of x 0] assms True
  have s: "2 ^ 52 \<le> x * 2 ^ ?k" "x * 2 ^ ?k < 2 ^ 53" by simp_all
  have p: "(2::real) powi (- int ?k) = 1 / 2 ^ ?k"
    by (simp add: power_int_minus_divide)
  have "2 ^ 52 * 2 powi (- int ?k) \<le> x" using s(1) by (simp add: p field_simps)
  moreover have "x < 2 ^ 53 * 2 powi (- int ?k)" using s(2) by (simp add: p field_simps)
  moreover have "roundBinary64 x
      = of_int (roundToEven (x / 2 powi (- int ?k))) * 2 powi (- int ?k)"
    using assms True by (simp add: roundBinary64_def p)
  ultimately show ?thesis by blast
next
  case False
  let ?k = "scaleDown x 0"
  from False have "2 ^ 52 \<le> x / 2 ^ 0" by simp
  from scaleDown_spec [OF this]
  have s: "2 ^ 52 \<le> x / 2 ^ ?k" "x / 2 ^ ?k < 2 ^ 53" by simp_all
  have "2 ^ 52 * 2 powi (int ?k) \<le> x" using s(1) by (simp add: field_simps)
  moreover have "x < 2 ^ 53 * 2 powi (int ?k)" using s(2) by (simp add: field_simps)
  moreover have "roundBinary64 x = of_int (roundToEven (x / 2 powi (int ?k))) * 2 powi (int ?k)"
    using assms False by (simp add: roundBinary64_def)
  ultimately show ?thesis by blast
qed

lemma binade_le:
  fixes x :: real
  assumes "2 ^ 52 * 2 powi e \<le> x" and "x < 2 ^ 53 * 2 powi e'"
  shows "e \<le> e'"
proof (rule ccontr)
  assume "\<not> e \<le> e'"
  then have "e' + 1 \<le> e" by simp
  then have "(2::real) powi (e' + 1) \<le> 2 powi e" by (intro power_int_increasing) simp_all
  then have "2 * (2::real) powi e' \<le> 2 powi e" by (simp add: power_int_add_1)
  with assms show False by simp
qed

lemma binade_unique:
  fixes x :: real
  assumes "2 ^ 52 * 2 powi e \<le> x" and "x < 2 ^ 53 * 2 powi e"
    and "2 ^ 52 * 2 powi e' \<le> x" and "x < 2 ^ 53 * 2 powi e'"
  shows "e = e'"
  using binade_le [OF assms(1) assms(4)] binade_le [OF assms(3) assms(2)] by simp

lemma roundBinary64_eval:
  assumes "2 ^ 52 * 2 powi e \<le> x" and "x < 2 ^ 53 * 2 powi e"
  shows "roundBinary64 x = of_int (roundToEven (x / 2 powi e)) * 2 powi e"
proof -
  have "0 < (2::real) ^ 52 * 2 powi e" by simp
  with assms(1) have "0 < x" by linarith
  from roundBinary64_pos_spec [OF this] obtain e' where
    e': "2 ^ 52 * 2 powi e' \<le> x" "x < 2 ^ 53 * 2 powi e'"
        "roundBinary64 x = of_int (roundToEven (x / 2 powi e')) * 2 powi e'"
    by blast
  from binade_unique [OF assms e'(1,2)] e'(3) show ?thesis by simp
qed

lemma roundBinary64_minus: "roundBinary64 (- x) = - roundBinary64 x"
  by (simp add: roundBinary64_def Let_def)

lemma roundToEven_of_int: "roundToEven (of_int n) = n"
  by (simp add: roundToEven_def)

lemma roundToEven_bounds: "\<lfloor>y\<rfloor> \<le> roundToEven y" "roundToEven y \<le> \<lceil>y\<rceil>"
proof -
  show "\<lfloor>y\<rfloor> \<le> roundToEven y" by (simp add: roundToEven_def Let_def)
  show "roundToEven y \<le> \<lceil>y\<rceil>"
  proof (cases "y = of_int \<lfloor>y\<rfloor>")
    case True
    then show ?thesis by (simp add: roundToEven_def Let_def)
  next
    case False
    then have "\<lceil>y\<rceil> = \<lfloor>y\<rfloor> + 1" by (simp add: ceiling_altdef)
    then show ?thesis by (simp add: roundToEven_def Let_def)
  qed
qed

lemma roundToEven_mono:
  assumes "x \<le> y"
  shows "roundToEven x \<le> roundToEven y"
proof (cases "\<lfloor>x\<rfloor> = \<lfloor>y\<rfloor>")
  case True
  with assms show ?thesis by (auto simp: roundToEven_def Let_def)
next
  case False
  with assms have "\<lfloor>x\<rfloor> < \<lfloor>y\<rfloor>" using floor_mono [OF assms] by simp
  then have "\<lfloor>x\<rfloor> + 1 \<le> \<lfloor>y\<rfloor>" by simp
  moreover have "roundToEven x \<le> \<lfloor>x\<rfloor> + 1" by (simp add: roundToEven_def Let_def)
  moreover have "\<lfloor>y\<rfloor> \<le> roundToEven y" by (rule roundToEven_bounds)
  ultimately show ?thesis by linarith
qed

lemma roundToEven_ge:
  assumes "of_int n \<le> y"
  shows "n \<le> roundToEven y"
  using roundToEven_mono [OF assms] by (simp add: roundToEven_of_int)

lemma roundToEven_le:
  assumes "y \<le> of_int n"
  shows "roundToEven y \<le> n"
  using roundToEven_mono [OF assms] by (simp add: roundToEven_of_int)

lemma roundBinary64_pos_bounds:
  assumes "2 ^ 52 * 2 powi e \<le> x" and "x < 2 ^ 53 * 2 powi e"
  shows "2 ^ 52 * 2 powi e \<le> roundBinary64 x" and "roundBinary64 x \<le> 2 ^ 53 * 2 powi e"
proof -
  have p: "0 < (2::real) powi e" by simp
  from assms(1) p have "of_int (2 ^ 52) \<le> x / 2 powi e" by (simp add: le_divide_eq)
  then have "2 ^ 52 \<le> roundToEven (x / 2 powi e)" by (rule roundToEven_ge)
  then have "(2::real) ^ 52 \<le> of_int (roundToEven (x / 2 powi e))"
    using of_int_le_iff [of "2 ^ 52" "roundToEven (x / 2 powi e)", where 'a = real] by simp
  with p show "2 ^ 52 * 2 powi e \<le> roundBinary64 x"
    by (simp add: roundBinary64_eval [OF assms])
  from assms(2) p have "x / 2 powi e \<le> of_int (2 ^ 53)" by (simp add: divide_le_eq)
  then have "roundToEven (x / 2 powi e) \<le> 2 ^ 53" by (rule roundToEven_le)
  then have "of_int (roundToEven (x / 2 powi e)) \<le> (2::real) ^ 53"
    using of_int_le_iff [of "roundToEven (x / 2 powi e)" "2 ^ 53", where 'a = real] by simp
  with p show "roundBinary64 x \<le> 2 ^ 53 * 2 powi e"
    by (simp add: roundBinary64_eval [OF assms])
qed

lemma binade_exists:
  fixes x :: real
  assumes "0 < x"
  shows "\<exists>e::int. 2 ^ 52 * 2 powi e \<le> x \<and> x < 2 ^ 53 * 2 powi e"
  using roundBinary64_pos_spec [OF assms] by blast

lemma roundBinary64_pos: "0 < x \<Longrightarrow> 0 < roundBinary64 x"
proof -
  assume "0 < x"
  from binade_exists [OF this] obtain e :: int where
    e: "2 ^ 52 * 2 powi e \<le> x" "x < 2 ^ 53 * 2 powi e" by blast
  have "0 < (2::real) ^ 52 * 2 powi e" by simp
  with roundBinary64_pos_bounds(1) [OF e] show ?thesis by linarith
qed

lemma roundBinary64_0: "roundBinary64 0 = 0"
  by (simp add: roundBinary64_def)

lemma roundBinary64_mono_pos:
  assumes "0 < x" and "x \<le> y"
  shows "roundBinary64 x \<le> roundBinary64 y"
proof -
  from assms have "0 < y" by simp
  from binade_exists [OF assms(1)] obtain e :: int where
    e: "2 ^ 52 * 2 powi e \<le> x" "x < 2 ^ 53 * 2 powi e" by blast
  from binade_exists [OF \<open>0 < y\<close>] obtain e' :: int where
    e': "2 ^ 52 * 2 powi e' \<le> y" "y < 2 ^ 53 * 2 powi e'" by blast
  from e(1) assms(2) have "2 ^ 52 * 2 powi e \<le> y" by simp
  from binade_le [OF this e'(2)] have le: "e \<le> e'" .
  show ?thesis
  proof (cases "e = e'")
    case True
    have "x / 2 powi e \<le> y / 2 powi e" using assms(2) by (simp add: divide_right_mono)
    then have "roundToEven (x / 2 powi e) \<le> roundToEven (y / 2 powi e)"
      by (rule roundToEven_mono)
    then have "real_of_int (roundToEven (x / 2 powi e)) \<le> of_int (roundToEven (y / 2 powi e))"
      by simp
    then show ?thesis
      using e' by (simp add: roundBinary64_eval [OF e] roundBinary64_eval [OF e' [folded True]])
  next
    case False
    with le have "e + 1 \<le> e'" by simp
    then have "(2::real) powi (e + 1) \<le> 2 powi e'" by (intro power_int_increasing) simp_all
    then have "2 ^ 53 * (2::real) powi e \<le> 2 ^ 52 * 2 powi e'" by (simp add: power_int_add_1)
    with roundBinary64_pos_bounds(2) [OF e] roundBinary64_pos_bounds(1) [OF e']
    show ?thesis by linarith
  qed
qed

lemma roundBinary64_mono:
  assumes "x \<le> y"
  shows "roundBinary64 x \<le> roundBinary64 y"
proof -
  consider "0 < x" | "x = 0" "y = 0" | "x = 0" "0 < y" | "x < 0" "0 < y" | "x < 0" "y = 0"
    | "x < 0" "y < 0"
    using assms by linarith
  then show ?thesis
  proof cases
    case 1
    then show ?thesis using assms by (rule roundBinary64_mono_pos)
  next
    case 2
    then show ?thesis by simp
  next
    case 3
    then show ?thesis using roundBinary64_pos [of y] by (simp add: roundBinary64_0)
  next
    case 4
    then have "0 < - x" by simp
    from roundBinary64_pos [OF this] roundBinary64_pos [OF 4(2)] show ?thesis
      by (simp add: roundBinary64_minus)
  next
    case 5
    then have "0 < - x" by simp
    from roundBinary64_pos [OF this] 5(2) show ?thesis
      by (simp add: roundBinary64_minus roundBinary64_0)
  next
    case 6
    then have "0 < - y" and "- y \<le> - x" using assms by simp_all
    from roundBinary64_mono_pos [OF this] show ?thesis by (simp add: roundBinary64_minus)
  qed
qed

lemma roundBinary64_exact:
  assumes "2 ^ 52 * 2 powi e \<le> x" and "x < 2 ^ 53 * 2 powi e" and "x = of_int m * 2 powi e"
  shows "roundBinary64 x = x"
proof -
  have q: "x / 2 powi e = of_int m" by (simp add: assms(3))
  have "roundBinary64 x = of_int (roundToEven (x / 2 powi e)) * 2 powi e"
    by (rule roundBinary64_eval [OF assms(1,2)])
  also have "\<dots> = of_int m * 2 powi e" by (simp only: q roundToEven_of_int)
  also have "\<dots> = x" by (simp only: assms(3))
  finally show ?thesis .
qed

lemma roundBinary64_idem_pos:
  assumes "0 < x"
  shows "roundBinary64 (roundBinary64 x) = roundBinary64 x"
proof -
  from binade_exists [OF assms] obtain e :: int where
    e: "2 ^ 52 * 2 powi e \<le> x" "x < 2 ^ 53 * 2 powi e" by blast
  let ?m = "roundToEven (x / 2 powi e)"
  have val: "roundBinary64 x = of_int ?m * 2 powi e" by (rule roundBinary64_eval [OF e])
  note b = roundBinary64_pos_bounds [OF e]
  show ?thesis
  proof (cases "roundBinary64 x < 2 ^ 53 * 2 powi e")
    case True
    from b(1) True val show ?thesis by (rule roundBinary64_exact)
  next
    case False
    with b(2) have top: "roundBinary64 x = 2 ^ 53 * 2 powi e" by simp
    have "roundBinary64 x = of_int (2 ^ 52) * 2 powi (e + 1)"
      by (simp add: top power_int_add_1)
    moreover have "2 ^ 52 * 2 powi (e + 1) \<le> roundBinary64 x"
      by (simp add: top power_int_add_1)
    moreover have "roundBinary64 x < 2 ^ 53 * 2 powi (e + 1)"
      by (simp add: top power_int_add_1)
    ultimately show ?thesis by (intro roundBinary64_exact [where e = "e + 1"])
  qed
qed

lemma roundBinary64_idem: "roundBinary64 (roundBinary64 x) = roundBinary64 x"
proof -
  consider "0 < x" | "x = 0" | "x < 0" by linarith
  then show ?thesis
  proof cases
    case 1
    then show ?thesis by (rule roundBinary64_idem_pos)
  next
    case 2
    then show ?thesis by (simp add: roundBinary64_0)
  next
    case 3
    then have "0 < - x" by simp
    from roundBinary64_idem_pos [OF this] show ?thesis by (simp add: roundBinary64_minus)
  qed
qed

lemma roundBinary64_nat:
  assumes "n \<le> 2 ^ 53"
  shows "roundBinary64 (real n) = real n"
proof (cases "n = 0")
  case True
  then show ?thesis by (simp add: roundBinary64_0)
next
  case False
  then have "0 < real n" by simp
  from binade_exists [OF this] obtain e :: int where
    e: "2 ^ 52 * 2 powi e \<le> real n" "real n < 2 ^ 53 * 2 powi e" by blast
  show ?thesis
  proof (cases "n = 2 ^ 53")
    case True
    have "roundBinary64 (2 ^ 53) = 2 ^ 53"
      by (rule roundBinary64_exact [where e = 1 and m = "2 ^ 52"]) simp_all
    with True show ?thesis by simp
  next
    case False
    with assms have "real n < 2 ^ 53 * 2 powi 0" by simp
    from binade_le [OF e(1) this] have "e \<le> 0" .
    then have "(2::real) powi e = 1 / 2 ^ nat (- e)"
      by (simp add: power_int_def field_simps)
    then have "real n = of_int (int n * 2 ^ nat (- e)) * 2 powi e" by simp
    with e show ?thesis by (intro roundBinary64_exact [where e = e])
  qed
qed

lemma roundBinary64_1: "roundBinary64 1 = 1"
  using roundBinary64_nat [of 1] by simp

lemma double_3: "roundBinary64 (2473854946935173 / 2 ^ 51) = 2473854946935173 / 2 ^ 51"
  by (rule roundBinary64_exact [where e = "- 52" and m = 4947709893870346])
     (simp_all add: power_int_minus_divide)

lemma double_2: "roundBinary64 (6243314768165359 / 2 ^ 53) = 6243314768165359 / 2 ^ 53"
  by (rule roundBinary64_exact [where e = "- 53" and m = 6243314768165359])
     (simp_all add: power_int_minus_divide)

lemma double_15: "roundBinary64 (1826052509787667 / 2 ^ 52) = 1826052509787667 / 2 ^ 52"
  by (rule roundBinary64_exact [where e = "- 54" and m = 7304210039150668])
     (simp_all add: power_int_minus_divide)

lemma double_counts:
  "roundBinary64 2 = 2" "roundBinary64 3 = 3" "roundBinary64 4 = 4" "roundBinary64 6 = 6"
  using roundBinary64_nat [of 2] roundBinary64_nat [of 3] roundBinary64_nat [of 4]
    roundBinary64_nat [of 6] by simp_all

lemma double_half_3: "roundBinary64 (3 / 2) = 3 / 2"
  by (rule roundBinary64_exact [where e = "- 52" and m = "3 * 2 ^ 51"])
     (simp_all add: power_int_minus_divide)

lemma signSafe_doubleNumbers: "signSafe doubleNumbers"
proof -
  have "0 \<le> mathLog doubleNumbers y" if "1 \<le> y" for y
  proof -
    from that have "0 \<le> ln y" by simp
    from roundBinary64_mono [OF this] have "0 \<le> roundBinary64 (ln y)"
      by (simp add: roundBinary64_0)
    then show ?thesis by (simp add: doubleNumbers_def)
  qed
  then show ?thesis
    by (simp add: signSafe_def roundBinary64_mono roundBinary64_0 roundBinary64_1)
       (simp add: doubleNumbers_def roundBinary64_mono roundBinary64_0 roundBinary64_1)
qed

lemma soundNumbers_doubleNumbers:
  assumes "N < 2 ^ 52"
  shows "soundNumbers doubleNumbers N"
proof -
  have ints: "roundNumber doubleNumbers (real n) = real n" if "n \<le> N + 1" for n
  proof -
    from that assms have "n \<le> 2 ^ 53" by simp
    then show ?thesis by (simp add: doubleNumbers_def roundBinary64_nat)
  qed
  have quot: "1 < roundNumber doubleNumbers (real a / real b)"
    if "0 < b" and "b < a" and "a \<le> N + 1" for a b
  proof -
    from that assms have b: "real b \<le> 2 ^ 52"
      using of_nat_le_iff [of b "2 ^ 52", where 'a = real] by simp
    have "1 + 1 / 2 ^ 52 \<le> 1 + 1 / real b"
      using that(1) b by (simp add: field_simps)
    also have "\<dots> = (real b + 1) / real b" using that(1) by (simp add: field_simps)
    also have "\<dots> \<le> real a / real b"
      using that(1,2) by (intro divide_right_mono) simp_all
    finally have "roundBinary64 (1 + 1 / 2 ^ 52) \<le> roundBinary64 (real a / real b)"
      by (rule roundBinary64_mono)
    moreover have "roundBinary64 (1 + 1 / 2 ^ 52) = 1 + 1 / 2 ^ 52"
      by (rule roundBinary64_exact [where e = "- 52" and m = "2 ^ 52 + 1"])
         (simp_all add: power_int_minus_divide)
    ultimately show ?thesis by (simp add: doubleNumbers_def)
  qed
  have pos: "0 < mathLog doubleNumbers y" if "1 < y" for y
  proof -
    from that have "0 < ln y" by simp
    from roundBinary64_pos [OF this] show ?thesis by (simp add: doubleNumbers_def)
  qed
  have dbl: "roundNumber doubleNumbers (mathLog doubleNumbers y) = mathLog doubleNumbers y" for y
    unfolding doubleNumbers_def
    by (simp only: Numbers.simps if_distrib [of roundBinary64] double_3 double_2 double_15
        roundBinary64_idem)
  from ints quot pos dbl show ?thesis
    by (simp add: soundNumbers_def signSafe_doubleNumbers)
qed

subsection \<open>Scoring: properties\<close>

lemma getOr0_termCountsOf: "getOr0 (termCountsOf toks) t = count_list toks t"
  by (simp add: termCountsOf_def getOr0_fold_increment) (simp add: getOr0_def)

lemma scoreChunk_fold:
  "scoreChunk nb qs c dfm N = fold (addTerm nb (tokenize (chunkText c)) dfm N) qs 0"
proof -
  have "(\<lambda>qt score.
           let tf = getOr0 (termCountsOf (tokenize (chunkText c))) qt
           in if tf = 0 then score
              else let docFreq = docFreqOf dfm qt;
                       idf = mathLog nb (roundNumber nb (roundNumber nb (real N + 1)
                                           / roundNumber nb (real docFreq + 1)))
                   in roundNumber nb (score + roundNumber nb (real tf * idf)))
        = addTerm nb (tokenize (chunkText c)) dfm N"
    by (intro ext) (simp add: addTerm_def idfOf_def getOr0_termCountsOf Let_def)
  then show ?thesis by (simp add: scoreChunk_def Let_def)
qed

lemma docFreqOf_pos: "1 \<le> docFreqOf dfm t"
  by (auto simp: docFreqOf_def split: option.splits)

lemma signSafeD:
  assumes "signSafe nb"
  shows "x \<le> y \<Longrightarrow> roundNumber nb x \<le> roundNumber nb y"
    and "roundNumber nb 0 = 0" and "roundNumber nb 1 = 1"
    and "1 \<le> y \<Longrightarrow> 0 \<le> mathLog nb y"
  using assms by (simp_all add: signSafe_def)

lemma round_nonneg: "signSafe nb \<Longrightarrow> 0 \<le> x \<Longrightarrow> 0 \<le> roundNumber nb x"
  using signSafeD(1) [of nb 0 x] signSafeD(2) [of nb] by simp

lemma round_ge_1: "signSafe nb \<Longrightarrow> 1 \<le> x \<Longrightarrow> 1 \<le> roundNumber nb x"
  using signSafeD(1) [of nb 1 x] signSafeD(3) [of nb] by simp

lemma idfOf_nonneg:
  assumes "signSafe nb" and "docFreqOf dfm t \<le> N"
  shows "0 \<le> idfOf nb dfm N t"
proof -
  let ?a = "roundNumber nb (real N + 1)" and ?b = "roundNumber nb (real (docFreqOf dfm t) + 1)"
  have "1 \<le> ?b" using assms(1) by (intro round_ge_1) simp_all
  moreover have "?b \<le> ?a" using assms by (intro signSafeD(1)) simp_all
  ultimately have "1 \<le> ?a / ?b" by (simp add: le_divide_eq)
  with assms(1) have "1 \<le> roundNumber nb (?a / ?b)" by (rule round_ge_1)
  with assms(1) show ?thesis unfolding idfOf_def by (rule signSafeD(4))
qed

lemma addTerm_absent: "t \<notin> set toks \<Longrightarrow> addTerm nb toks dfm N t score = score"
  by (simp add: addTerm_def count_list_0_iff)

lemma addTerm_nonneg:
  assumes "signSafe nb" and "t \<in> set toks \<longrightarrow> docFreqOf dfm t \<le> N" and "0 \<le> score"
  shows "0 \<le> addTerm nb toks dfm N t score"
proof (cases "t \<in> set toks")
  case True
  with assms have "0 \<le> idfOf nb dfm N t" by (simp add: idfOf_nonneg)
  then have "0 \<le> real (count_list toks t) * idfOf nb dfm N t" by simp
  with assms(1) have "0 \<le> roundNumber nb (real (count_list toks t) * idfOf nb dfm N t)"
    by (rule round_nonneg)
  with assms(3) have "0 \<le> score + roundNumber nb (real (count_list toks t) * idfOf nb dfm N t)"
    by simp
  with assms(1) have "0 \<le> roundNumber nb
      (score + roundNumber nb (real (count_list toks t) * idfOf nb dfm N t))"
    by (rule round_nonneg)
  with True show ?thesis by (simp add: addTerm_def count_list_0_iff)
next
  case False
  with assms(3) show ?thesis by (simp add: addTerm_absent)
qed

lemma fold_addTerm_nonneg:
  assumes "signSafe nb" and "\<forall>t\<in>set toks. docFreqOf dfm t \<le> N" and "0 \<le> acc"
  shows "0 \<le> fold (addTerm nb toks dfm N) qs acc"
  using assms(3)
proof (induction qs arbitrary: acc)
  case Nil
  then show ?case by simp
next
  case (Cons q qs)
  from assms(1,2) Cons.prems have "0 \<le> addTerm nb toks dfm N q acc"
    by (intro addTerm_nonneg) auto
  then show ?case by (simp add: Cons.IH)
qed

lemma scoreChunk_nonneg:
  assumes "signSafe nb" and "\<forall>t\<in>set (tokenize (chunkText c)). docFreqOf dfm t \<le> N"
  shows "0 \<le> scoreChunk nb qs c dfm N"
  unfolding scoreChunk_fold using assms by (intro fold_addTerm_nonneg) simp_all

lemma scoreChunk_zero:
  assumes "set qs \<inter> set (tokenize (chunkText c)) = {}"
  shows "scoreChunk nb qs c dfm N = 0"
proof -
  have "fold (addTerm nb toks dfm N) qs acc = acc" if "set qs \<inter> set toks = {}" for toks acc
    using that by (induction qs arbitrary: acc) (auto simp: addTerm_absent)
  with assms show ?thesis by (simp add: scoreChunk_fold)
qed

lemma soundNumbersD:
  assumes "soundNumbers nb N"
  shows "signSafe nb"
    and "n \<le> N + 1 \<Longrightarrow> roundNumber nb (real n) = real n"
    and "0 < b \<Longrightarrow> b < a \<Longrightarrow> a \<le> N + 1 \<Longrightarrow> 1 < roundNumber nb (real a / real b)"
    and "1 < y \<Longrightarrow> 0 < mathLog nb y"
    and "roundNumber nb (mathLog nb y) = mathLog nb y"
  using assms by (simp_all add: soundNumbers_def)

lemma idfOf_pos:
  assumes "soundNumbers nb N" and "docFreqOf dfm t < N"
  shows "0 < idfOf nb dfm N t"
proof -
  let ?d = "docFreqOf dfm t"
  have eq: "real n + 1 = real (n + 1)" for n by simp
  have a: "roundNumber nb (real N + 1) = real (N + 1)"
    unfolding eq by (rule soundNumbersD(2) [OF assms(1)]) simp
  have b: "roundNumber nb (real ?d + 1) = real (?d + 1)"
    unfolding eq using assms(2) by (intro soundNumbersD(2) [OF assms(1)]) simp
  have "1 < roundNumber nb (real (N + 1) / real (?d + 1))"
    using assms(2) by (intro soundNumbersD(3) [OF assms(1)]) simp_all
  then have "0 < mathLog nb (roundNumber nb (real (N + 1) / real (?d + 1)))"
    by (rule soundNumbersD(4) [OF assms(1)])
  then show ?thesis by (simp only: idfOf_def a b)
qed

lemma addTerm_ge:
  assumes "signSafe nb" and "roundNumber nb m = m" and "m \<le> score"
    and "t \<in> set toks \<longrightarrow> docFreqOf dfm t \<le> N"
  shows "m \<le> addTerm nb toks dfm N t score"
proof (cases "t \<in> set toks")
  case True
  with assms have "0 \<le> idfOf nb dfm N t" by (simp add: idfOf_nonneg)
  then have "0 \<le> real (count_list toks t) * idfOf nb dfm N t" by simp
  with assms(1) have "0 \<le> roundNumber nb (real (count_list toks t) * idfOf nb dfm N t)"
    by (rule round_nonneg)
  with assms(3) have "m \<le> score + roundNumber nb (real (count_list toks t) * idfOf nb dfm N t)"
    by simp
  with assms(1) have "roundNumber nb m
        \<le> roundNumber nb (score + roundNumber nb (real (count_list toks t) * idfOf nb dfm N t))"
    by (rule signSafeD(1))
  with assms(2) True show ?thesis by (simp add: addTerm_def count_list_0_iff)
next
  case False
  with assms(3) show ?thesis by (simp add: addTerm_absent)
qed

lemma fold_addTerm_ge:
  assumes "signSafe nb" and "roundNumber nb m = m"
    and "\<forall>t\<in>set toks. docFreqOf dfm t \<le> N" and "m \<le> acc"
  shows "m \<le> fold (addTerm nb toks dfm N) qs acc"
  using assms(4)
proof (induction qs arbitrary: acc)
  case Nil
  then show ?case by simp
next
  case (Cons q qs)
  from assms(1,2,3) Cons.prems have "m \<le> addTerm nb toks dfm N q acc"
    by (intro addTerm_ge) auto
  then show ?case by (simp add: Cons.IH)
qed

lemma addTerm_present_ge_idf:
  assumes "soundNumbers nb N" and "t \<in> set toks" and "docFreqOf dfm t < N" and "0 \<le> score"
  shows "idfOf nb dfm N t \<le> addTerm nb toks dfm N t score"
proof -
  let ?m = "idfOf nb dfm N t"
  note safe = soundNumbersD(1) [OF assms(1)]
  have m: "0 < ?m" using assms(1,3) by (rule idfOf_pos)
  have rm: "roundNumber nb ?m = ?m"
    unfolding idfOf_def by (rule soundNumbersD(5) [OF assms(1)])
  from assms(2) have "1 \<le> count_list toks t"
    using count_list_0_iff [of toks t] by (simp add: Suc_le_eq)
  then have "1 \<le> real (count_list toks t)" by simp
  with m have "?m \<le> real (count_list toks t) * ?m" by simp
  with safe have "roundNumber nb ?m \<le> roundNumber nb (real (count_list toks t) * ?m)"
    by (rule signSafeD(1))
  with rm assms(4) have "?m \<le> score + roundNumber nb (real (count_list toks t) * ?m)"
    by simp
  with safe have "roundNumber nb ?m
                    \<le> roundNumber nb (score + roundNumber nb (real (count_list toks t) * ?m))"
    by (rule signSafeD(1))
  with rm assms(2) show ?thesis
    using count_list_0_iff [of toks t] by (simp add: addTerm_def)
qed

lemma fold_addTerm_pos:
  assumes "soundNumbers nb N" and "\<forall>t\<in>set toks. docFreqOf dfm t \<le> N"
    and "qt \<in> set qs" and "qt \<in> set toks" and "docFreqOf dfm qt < N" and "0 \<le> acc"
  shows "idfOf nb dfm N qt \<le> fold (addTerm nb toks dfm N) qs acc"
  using assms(3,6)
proof (induction qs arbitrary: acc)
  case Nil
  then show ?case by simp
next
  case (Cons q qs)
  note safe = soundNumbersD(1) [OF assms(1)]
  have rm: "roundNumber nb (idfOf nb dfm N qt) = idfOf nb dfm N qt"
    unfolding idfOf_def by (rule soundNumbersD(5) [OF assms(1)])
  show ?case
  proof (cases "q = qt")
    case True
    from assms(1,4,5) Cons.prems(2)
    have "idfOf nb dfm N qt \<le> addTerm nb toks dfm N qt acc"
      by (rule addTerm_present_ge_idf)
    with safe rm assms(2)
    have "idfOf nb dfm N qt \<le> fold (addTerm nb toks dfm N) qs (addTerm nb toks dfm N qt acc)"
      by (rule fold_addTerm_ge)
    with True show ?thesis by simp
  next
    case False
    with Cons.prems(1) have mem: "qt \<in> set qs" by simp
    from safe assms(2) Cons.prems(2) have "0 \<le> addTerm nb toks dfm N q acc"
      by (intro addTerm_nonneg) auto
    from Cons.IH [OF mem this] show ?thesis by simp
  qed
qed

lemma scoreChunk_pos:
  assumes "soundNumbers nb N" and "\<forall>t\<in>set (tokenize (chunkText c)). docFreqOf dfm t \<le> N"
    and "qt \<in> set qs" and "qt \<in> set (tokenize (chunkText c))" and "docFreqOf dfm qt < N"
  shows "0 < scoreChunk nb qs c dfm N"
proof -
  have "idfOf nb dfm N qt \<le> fold (addTerm nb (tokenize (chunkText c)) dfm N) qs 0"
    using assms by (intro fold_addTerm_pos) simp_all
  moreover have "0 < idfOf nb dfm N qt" using assms(1,5) by (rule idfOf_pos)
  ultimately show ?thesis by (simp add: scoreChunk_fold)
qed

lemma signSafe_exactNumbers: "signSafe exactNumbers"
  by (simp add: signSafe_def exactNumbers_def)

lemma soundNumbers_exactNumbers: "soundNumbers exactNumbers N"
  by (simp add: soundNumbers_def signSafe_exactNumbers) (simp add: exactNumbers_def)

text \<open>
  Claim C2. For a document-frequency table that gives every token of the chunk a frequency
  between 1 and the chunk count \<open>N\<close>, with \<open>N \<ge> 1\<close>: the score is never negative; it is
  0 when the query has no tokens or shares none with the chunk; it is positive when some
  query token occurs in the chunk with a document frequency below \<open>N\<close>. The score is the
  Number the loop computes, rounding included; the arithmetic is any that is sound for
  counts up to \<open>N + 1\<close>, as doubles are for \<open>N < 2\<^sup>5\<^sup>2\<close> (lemma \<open>soundNumbers_doubleNumbers\<close>)
  and as arithmetic without rounding is for every \<open>N\<close> (lemma \<open>soundNumbers_exactNumbers\<close>).
\<close>

theorem scoreChunk_sign:
  assumes "1 \<le> N"
    and "\<forall>t\<in>set (tokenize (chunkText c)). \<exists>d. dfm t = Some d \<and> 1 \<le> d \<and> d \<le> N"
    and "soundNumbers nb N"
  shows "0 \<le> scoreChunk nb qs c dfm N
       \<and> (qs = [] \<or> set qs \<inter> set (tokenize (chunkText c)) = {} \<longrightarrow> scoreChunk nb qs c dfm N = 0)
       \<and> ((\<exists>qt\<in>set qs. qt \<in> set (tokenize (chunkText c)) \<and> (\<exists>d. dfm qt = Some d \<and> d < N))
            \<longrightarrow> 0 < scoreChunk nb qs c dfm N)"
proof -
  note safe = soundNumbersD(1) [OF assms(3)]
  have bound: "\<forall>t\<in>set (tokenize (chunkText c)). docFreqOf dfm t \<le> N"
    using assms(2) by (fastforce simp: docFreqOf_def)
  have "0 \<le> scoreChunk nb qs c dfm N"
    using safe bound by (rule scoreChunk_nonneg)
  moreover have "scoreChunk nb qs c dfm N = 0"
    if "qs = [] \<or> set qs \<inter> set (tokenize (chunkText c)) = {}"
    using that by (auto intro: scoreChunk_zero)
  moreover have "0 < scoreChunk nb qs c dfm N"
    if "\<exists>qt\<in>set qs. qt \<in> set (tokenize (chunkText c)) \<and> (\<exists>d. dfm qt = Some d \<and> d < N)"
  proof -
    from that obtain qt d where q: "qt \<in> set qs" "qt \<in> set (tokenize (chunkText c))"
      "dfm qt = Some d" "d < N" by blast
    from assms(2) q(2,3) have "1 \<le> d" by fastforce
    with q(3,4) have "docFreqOf dfm qt < N" by (simp add: docFreqOf_def)
    with assms(3) bound q(1,2) show ?thesis by (rule scoreChunk_pos)
  qed
  ultimately show ?thesis by blast
qed

lemma exampleChunk_sel [simp]:
  "chunkText (exampleChunk d p t) = t" "docName (exampleChunk d p t) = d"
  "page (exampleChunk d p t) = p"
  by (simp_all add: exampleChunk_def)

lemma tokenize_trash_bins: "tokenize ''Trash bins'' = [''trash'', ''bins'']"
  by code_simp

text \<open>
  A chunk with the tokens \<^verbatim>\<open>trash\<close> (in one of two chunks) and \<^verbatim>\<open>bins\<close> (in both), scored
  in doubles and scored without rounding error.
\<close>

theorem scoreChunk_sign_witness:
  "0 < scoreChunk doubleNumbers [''trash''] (exampleChunk ''a.pdf'' 1 ''Trash bins'')
         [''trash'' \<mapsto> 1, ''bins'' \<mapsto> 2] 2
   \<and> scoreChunk doubleNumbers [] (exampleChunk ''a.pdf'' 1 ''Trash bins'')
         [''trash'' \<mapsto> 1, ''bins'' \<mapsto> 2] 2 = 0
   \<and> 0 < scoreChunk exactNumbers [''trash''] (exampleChunk ''a.pdf'' 1 ''Trash bins'')
         [''trash'' \<mapsto> 1, ''bins'' \<mapsto> 2] 2
   \<and> scoreChunk exactNumbers [] (exampleChunk ''a.pdf'' 1 ''Trash bins'')
         [''trash'' \<mapsto> 1, ''bins'' \<mapsto> 2] 2 = 0"
proof -
  let ?c = "exampleChunk ''a.pdf'' 1 ''Trash bins''"
  let ?m = "[''trash'' \<mapsto> 1::nat, ''bins'' \<mapsto> 2]"
  have h1: "1 \<le> (2::nat)" by simp
  have h2: "\<forall>t\<in>set (tokenize (chunkText ?c)). \<exists>d. ?m t = Some d \<and> 1 \<le> d \<and> d \<le> 2"
    by (simp add: tokenize_trash_bins)
  have d3: "soundNumbers doubleNumbers 2"
    by (rule soundNumbers_doubleNumbers) simp
  have e3: "soundNumbers exactNumbers 2"
    by (simp add: soundNumbers_def signSafe_def exactNumbers_def)
  have a: "\<exists>qt\<in>set [''trash'']. qt \<in> set (tokenize (chunkText ?c)) \<and> (\<exists>d. ?m qt = Some d \<and> d < 2)"
    by (simp add: tokenize_trash_bins)
  from scoreChunk_sign [OF h1 h2 d3, of "[''trash'']"] a
  have "0 < scoreChunk doubleNumbers [''trash''] ?c ?m 2" by blast
  moreover from scoreChunk_sign [OF h1 h2 d3, of "[]"]
  have "scoreChunk doubleNumbers [] ?c ?m 2 = 0" by blast
  moreover from scoreChunk_sign [OF h1 h2 e3, of "[''trash'']"] a
  have "0 < scoreChunk exactNumbers [''trash''] ?c ?m 2" by blast
  moreover from scoreChunk_sign [OF h1 h2 e3, of "[]"]
  have "scoreChunk exactNumbers [] ?c ?m 2 = 0" by blast
  ultimately show ?thesis by blast
qed

subsection \<open>Ranking and selection\<close>

lemma insort_key_map:
  "insort_key f (g x) (map g xs) = map g (insort_key (\<lambda>a. f (g a)) x xs)"
  by (induction xs) auto

lemma sort_key_map: "sort_key f (map g xs) = map g (sort_key (\<lambda>a. f (g a)) xs)"
  by (induction xs) (auto simp: insort_key_map)

lemma rankBefore_insort:
  assumes "sorted_wrt (rankBefore sc) ys" and "\<forall>y\<in>set ys. x < y"
  shows "sorted_wrt (rankBefore sc) (insort_key (\<lambda>i. - sc i) x ys)"
  using assms
proof (induction ys)
  case Nil
  then show ?case by simp
next
  case (Cons y ys)
  show ?case
  proof (cases "sc y \<le> sc x")
    case True
    have "rankBefore sc x z" if "z \<in> set (y # ys)" for z
    proof -
      have "sc z \<le> sc y" using that Cons.prems(1) by (auto simp: rankBefore_def)
      moreover have "x < z" using that Cons.prems(2) by auto
      ultimately show ?thesis using True by (auto simp: rankBefore_def)
    qed
    with True Cons.prems(1) show ?thesis by simp
  next
    case False
    then have "rankBefore sc y x" by (simp add: rankBefore_def)
    moreover have "sorted_wrt (rankBefore sc) (insort_key (\<lambda>i. - sc i) x ys)"
      using Cons by simp
    ultimately show ?thesis using False Cons.prems(1) by (auto simp: set_insort_key)
  qed
qed

lemma rankBefore_sort:
  "sorted_wrt (<) xs \<Longrightarrow> sorted_wrt (rankBefore sc) (sort_key (\<lambda>i. - sc i) xs)"
  by (induction xs) (auto intro!: rankBefore_insort)

lemma docFreqOf_buildDf:
  assumes "c \<in> set cs" and "t \<in> set (tokenize (chunkText c))"
  shows "docFreqOf (buildDf cs) t = chunksWith t cs" and "1 \<le> chunksWith t cs"
    and "chunksWith t cs \<le> length cs"
proof -
  from assms have "filter (\<lambda>c. t \<in> set (tokenize (chunkText c))) cs \<noteq> []"
    by (auto simp: filter_empty_conv)
  then show pos: "1 \<le> chunksWith t cs"
    by (simp add: chunksWith_def Suc_le_eq)
  then show "docFreqOf (buildDf cs) t = chunksWith t cs"
    by (simp add: docFreqOf_def buildDf_lookup)
  show "chunksWith t cs \<le> length cs" by (simp add: chunksWith_def)
qed

lemma scoreAt_nonneg:
  assumes "signSafe nb" and "i < length cs"
  shows "0 \<le> scoreAt nb cs query i"
  unfolding scoreAt_def using assms(1)
proof (rule scoreChunk_nonneg, intro ballI)
  fix t assume "t \<in> set (tokenize (chunkText (cs ! i)))"
  with assms(2) show "docFreqOf (buildDf cs) t \<le> length cs"
    using docFreqOf_buildDf [of "cs ! i" cs t] by simp
qed

lemma scored_natural:
  "map (\<lambda>c. (c, scoreChunk nb qs c dfm N)) cs
     = map (\<lambda>i. (cs ! i, scoreChunk nb qs (cs ! i) dfm N)) [0..<length cs]"
  by (rule nth_equalityI) auto

lemma pickChunks_ranked:
  assumes "0 \<le> topK"
  shows "pickChunks nb (indexOf cs) query topK
           = map (\<lambda>i. (cs ! i, scoreAt nb cs query i))
               (if \<exists>i<length cs. 0 < scoreAt nb cs query i
                then take (nat topK) (filter (\<lambda>i. 0 < scoreAt nb cs query i)
                       (sort_key (\<lambda>i. - scoreAt nb cs query i) [0..<length cs]))
                else take (nat topK) (sort_key (\<lambda>i. - scoreAt nb cs query i) [0..<length cs]))"
proof -
  let ?ranked = "sort_key (\<lambda>i. - scoreAt nb cs query i) [0..<length cs]"
  let ?g = "\<lambda>i. (cs ! i, scoreAt nb cs query i)"
  have all: "sort_key (\<lambda>x. - snd x)
               (map (\<lambda>c. (c, scoreChunk nb (tokenize query) c (buildDf cs) (length cs))) cs)
             = map ?g ?ranked"
    unfolding scoreAt_def
    by (simp add: scored_natural [of _ _ _ _ cs] sort_key_map)
  have pos: "filter (\<lambda>x. snd x > 0) (map ?g ?ranked)
             = map ?g (filter (\<lambda>i. 0 < scoreAt nb cs query i) ?ranked)"
    by (simp add: filter_map comp_def)
  have set_ranked: "set ?ranked = {0..<length cs}"
    by simp
  show ?thesis
  proof (cases "\<exists>i<length cs. 0 < scoreAt nb cs query i")
    case True
    then have ne: "filter (\<lambda>i. 0 < scoreAt nb cs query i) ?ranked \<noteq> []"
      by (auto simp: filter_empty_conv set_ranked)
    show ?thesis
    proof (cases "topK = 0")
      case True
      then show ?thesis
        by (simp add: pickChunks_def indexOf_def Let_def sliceTo_def)
    next
      case False
      with assms(1) have "0 < nat topK" by simp
      with ne have "take (nat topK) (filter (\<lambda>i. 0 < scoreAt nb cs query i) ?ranked) \<noteq> []"
        by (cases "nat topK") auto
      with True assms(1) show ?thesis
        by (simp add: pickChunks_def indexOf_def Let_def sliceTo_def all pos take_map)
    qed
  next
    case False
    then have "filter (\<lambda>i. 0 < scoreAt nb cs query i) ?ranked = []"
      by (auto simp: filter_empty_conv set_ranked)
    with assms(1) have "pickChunks nb (indexOf cs) query topK = map ?g (take (nat topK) ?ranked)"
      by (simp add: pickChunks_def indexOf_def Let_def sliceTo_def all pos take_map)
    then show ?thesis by (simp only: False if_False)
  qed
qed

lemma ranked_natural_if_all_zero:
  assumes "\<forall>i<length cs. scoreAt nb cs query i = 0"
  shows "sort_key (\<lambda>i. - scoreAt nb cs query i) [0..<length cs] = [0..<length cs]"
proof -
  from assms have "map (\<lambda>i. - scoreAt nb cs query i) [0..<length cs] = map (\<lambda>_. 0) [0..<length cs]"
    by (intro map_cong) auto
  moreover have "sorted (map (\<lambda>_. 0::real) xs)" for xs :: "nat list"
    by (induction xs) auto
  ultimately have "sorted (map (\<lambda>i. - scoreAt nb cs query i) [0..<length cs])"
    by (simp only:)
  then show ?thesis by (rule sort_key_id_if_sorted)
qed

lemma all_zero_if_no_positive:
  assumes "signSafe nb" and "\<not> (\<exists>i<length cs. 0 < scoreAt nb cs query i)"
  shows "\<forall>i<length cs. scoreAt nb cs query i = 0"
proof (intro allI impI)
  fix i assume "i < length cs"
  with assms show "scoreAt nb cs query i = 0"
    using scoreAt_nonneg [of nb i cs query] by (meson antisym_conv not_le)
qed

lemma pickChunks_fallback:
  assumes "0 \<le> topK" and "\<forall>i<length cs. scoreAt nb cs query i = 0"
  shows "map fst (pickChunks nb (indexOf cs) query topK) = take (nat topK) cs"
proof -
  from assms(2) have none: "\<not> (\<exists>i<length cs. 0 < scoreAt nb cs query i)" by auto
  have "pickChunks nb (indexOf cs) query topK
          = map (\<lambda>i. (cs ! i, scoreAt nb cs query i)) (take (nat topK) [0..<length cs])"
    using pickChunks_ranked [OF assms(1), of nb cs query] ranked_natural_if_all_zero [OF assms(2)]
    by (simp only: none if_False)
  then have "map fst (pickChunks nb (indexOf cs) query topK)
               = take (nat topK) (map (nth cs) [0..<length cs])"
    by (simp add: take_map comp_def)
  then show ?thesis by (simp only: map_nth)
qed

lemma scoreAt_no_overlap:
  assumes "\<forall>c\<in>set cs. set (tokenize query) \<inter> set (tokenize (chunkText c)) = {}"
    and "i < length cs"
  shows "scoreAt nb cs query i = 0"
  unfolding scoreAt_def using assms by (intro scoreChunk_zero) simp

text \<open>
  Claim C1. For the index over any chunks \<open>cs\<close> and any query there is a ranking of all
  chunk positions, by descending score and, among equal scores, by position in the index,
  such that the selection is the first \<open>topK\<close> positions of positive score in that ranking;
  when no chunk scores positive the selection is the first \<open>topK\<close> chunks of the index,
  and no chunk scores positive when the query shares no token with any chunk, as the empty
  query does.
  The position in the index is the natural order: \<^verbatim>\<open>buildIndex\<close> appends the chunks file by
  file, page by page, offset by offset. The score is the Number that \<^verbatim>\<open>scoreChunk\<close> computes,
  rounding included: two chunks tie when their computed scores are equal. Of the
  arithmetic only the sign of a score is used, and only for the fallback; doubles meet what
  is assumed of it (lemma \<open>signSafe_doubleNumbers\<close>).
\<close>

theorem pickChunks_ranking:
  assumes "cs \<noteq> []" and "0 \<le> topK" and "signSafe nb"
  shows "(\<exists>ranked.
           set ranked = {0..<length cs}
         \<and> sorted_wrt (rankBefore (scoreAt nb cs query)) ranked
         \<and> pickChunks nb (indexOf cs) query topK
             = map (\<lambda>i. (cs ! i, scoreAt nb cs query i))
                 (if \<exists>i<length cs. 0 < scoreAt nb cs query i
                  then take (nat topK) (filter (\<lambda>i. 0 < scoreAt nb cs query i) ranked)
                  else take (nat topK) [0..<length cs]))
       \<and> ((\<forall>c\<in>set cs. set (tokenize query) \<inter> set (tokenize (chunkText c)) = {}) \<longrightarrow>
            map fst (pickChunks nb (indexOf cs) query topK) = take (nat topK) cs)"
proof -
  let ?ranked = "sort_key (\<lambda>i. - scoreAt nb cs query i) [0..<length cs]"
  have "set ?ranked = {0..<length cs}" by simp
  moreover have "sorted_wrt (rankBefore (scoreAt nb cs query)) ?ranked"
    by (rule rankBefore_sort) simp
  moreover have "pickChunks nb (indexOf cs) query topK
             = map (\<lambda>i. (cs ! i, scoreAt nb cs query i))
                 (if \<exists>i<length cs. 0 < scoreAt nb cs query i
                  then take (nat topK) (filter (\<lambda>i. 0 < scoreAt nb cs query i) ?ranked)
                  else take (nat topK) [0..<length cs])"
  proof (cases "\<exists>i<length cs. 0 < scoreAt nb cs query i")
    case True
    then show ?thesis
      using pickChunks_ranked [OF assms(2), of nb cs query] by (simp only: if_True)
  next
    case False
    then show ?thesis
      using pickChunks_ranked [OF assms(2), of nb cs query]
        ranked_natural_if_all_zero [OF all_zero_if_no_positive [OF assms(3) False]]
      by (simp only: if_False)
  qed
  moreover have "map fst (pickChunks nb (indexOf cs) query topK) = take (nat topK) cs"
    if "\<forall>c\<in>set cs. set (tokenize query) \<inter> set (tokenize (chunkText c)) = {}"
  proof -
    from that have "\<forall>i<length cs. scoreAt nb cs query i = 0"
      by (auto simp: scoreAt_no_overlap)
    with assms(2) show ?thesis by (rule pickChunks_fallback)
  qed
  ultimately show ?thesis by blast
qed

subsection \<open>Assembly under the budget\<close>

lemma assemble_take:
  "assemble B u cs = map (\<lambda>c. (blockOf c, segmentOf c)) (take (length (assemble B u cs)) cs)"
  by (induction cs arbitrary: u) (auto simp: Let_def)

lemma assemble_within:
  "assemble B u cs \<noteq> [] \<Longrightarrow> u + blockCost (take (length (assemble B u cs)) cs) \<le> B"
proof (induction cs arbitrary: u)
  case Nil
  then show ?case by simp
next
  case (Cons c cs)
  let ?u' = "u + int (length (blockOf c)) + 4"
  from Cons.prems have fit: "?u' \<le> B"
    by (auto simp: Let_def split: if_splits)
  show ?case
  proof (cases "assemble B ?u' cs = []")
    case True
    with fit show ?thesis by (simp add: Let_def blockCost_def)
  next
    case False
    from Cons.IH [OF False] fit show ?thesis
      by (simp add: Let_def blockCost_def)
  qed
qed

lemma assemble_stop:
  "length (assemble B u cs) < length cs \<Longrightarrow>
   B < u + blockCost (take (length (assemble B u cs)) cs)
         + int (length (blockOf (cs ! length (assemble B u cs)))) + 4"
proof (induction cs arbitrary: u)
  case Nil
  then show ?case by simp
next
  case (Cons c cs)
  let ?u' = "u + int (length (blockOf c)) + 4"
  show ?case
  proof (cases "?u' \<le> B")
    case True
    with Cons.prems have "length (assemble B ?u' cs) < length cs"
      by (simp add: Let_def)
    from Cons.IH [OF this] True show ?thesis
      by (simp add: Let_def blockCost_def)
  next
    case False
    then show ?thesis by (simp add: Let_def blockCost_def)
  qed
qed

lemma segmentCost_segmentOf: "segmentCost (map segmentOf cs) = blockCost cs"
  by (simp add: segmentCost_def blockCost_def segmentOf_def comp_def)

lemma getRelevantContext_Some:
  assumes "getRelevantContext nb index query charBudget topK = Fulfilled (Some r)"
  shows "assemble charBudget 0 (map fst (pickChunks nb index query topK)) \<noteq> []"
    and "contextText r = contextPrefix @ join blockSeparator
           (map fst (assemble charBudget 0 (map fst (pickChunks nb index query topK))))"
    and "segments r = map snd (assemble charBudget 0 (map fst (pickChunks nb index query topK)))"
  using assms by (auto simp: getRelevantContext_def Let_def split: if_splits)

lemma included_blocks:
  assumes "getRelevantContext nb index query charBudget topK = Fulfilled (Some r)"
  shows "segments r
           = map segmentOf (take (length (segments r)) (map fst (pickChunks nb index query topK)))"
    and "segmentCost (segments r) \<le> charBudget"
    and "length (segments r) < length (pickChunks nb index query topK) \<Longrightarrow>
            charBudget < segmentCost (segments r)
               + int (length (blockOf (fst (pickChunks nb index query topK ! length (segments r))))) + 4"
proof -
  let ?picked = "map fst (pickChunks nb index query topK)"
  let ?inc = "assemble charBudget 0 ?picked"
  note r = getRelevantContext_Some [OF assms]
  have len: "length (segments r) = length ?inc" by (simp add: r(3))
  show seg: "segments r = map segmentOf (take (length (segments r)) ?picked)"
    unfolding len by (subst r(3), subst assemble_take) (simp add: comp_def)
  have cost: "segmentCost (segments r) = blockCost (take (length ?inc) ?picked)"
    by (subst seg) (simp add: segmentCost_segmentOf len)
  show "segmentCost (segments r) \<le> charBudget"
    using assemble_within [OF r(1)] by (simp add: cost)
  show "charBudget < segmentCost (segments r)
               + int (length (blockOf (fst (pickChunks nb index query topK ! length (segments r))))) + 4"
    if "length (segments r) < length (pickChunks nb index query topK)"
  proof -
    from that have "length ?inc < length ?picked" by (simp add: len)
    from assemble_stop [OF this] that show ?thesis by (simp add: cost len)
  qed
qed

text \<open>
  Claim C3. When retrieval returns a result, the included blocks are a prefix of the selected
  chunks in rank order (nothing is evicted, nothing is skipped), the sum over the segments
  of the block length plus the overhead of 4 is at most \<open>charBudget\<close>, and when a selected
  chunk is left out, the first one left out would have exceeded the budget.
\<close>

theorem budget_respected:
  assumes "getRelevantContext nb index query charBudget topK = Fulfilled (Some r)"
  shows "segments r
           = map segmentOf (take (length (segments r)) (map fst (pickChunks nb index query topK)))
       \<and> segmentCost (segments r) \<le> charBudget
       \<and> (length (segments r) < length (pickChunks nb index query topK) \<longrightarrow>
            charBudget < segmentCost (segments r)
               + int (length (blockOf (fst (pickChunks nb index query topK ! length (segments r))))) + 4)"
  using included_blocks [OF assms] by blast

subsection \<open>The example corpus, evaluated\<close>

lemma showNat_1: "showNat (Suc 0) = ''1''" by code_simp
lemma showNat_2: "showNat 2 = ''2''" by code_simp
lemma tokenize_empty: "tokenize [] = []" by code_simp
lemma normalize_floors:
  "normalizeWhitespace ''Floors must be swept daily.'' = ''Floors must be swept daily.''"
  by code_simp
lemma normalize_trash: "normalizeWhitespace ''Trash.'' = ''Trash.''"
  by code_simp

lemma blockOf_exampleChunk:
  "blockOf (exampleChunk d p t)
     = ''['' @ d @ '' p.'' @ showNat p @ '']'' @ [CHR 0x0A] @ normalizeWhitespace t"
  by (simp add: blockOf_def headerOf_def)

lemmas example_eval =
  blockOf_exampleChunk showNat_1 showNat_2 normalize_floors normalize_trash segmentOf_def Let_def

lemma scoreChunk_no_tokens: "scoreChunk nb [] c dfm N = 0"
  by (simp add: scoreChunk_def)

lemma pickChunks_example_empty_query:
  "pickChunks nb (indexOf exampleCorpus) [] topK
     = sliceTo [(exampleChunk ''a.pdf'' 1 ''Floors must be swept daily.'', 0),
                (exampleChunk ''a.pdf'' 2 ''Trash.'', 0)] topK"
  by (simp add: pickChunks_def indexOf_def exampleCorpus_def tokenize_empty scoreChunk_no_tokens
      sliceTo_def)

lemma indexOf_sel [simp]:
  "chunks (indexOf cs) = cs" "df (indexOf cs) = buildDf cs" "totalChunks (indexOf cs) = length cs"
  by (simp_all add: indexOf_def)

lemma length_exampleCorpus: "length exampleCorpus = 2"
  by (simp add: exampleCorpus_def)

lemma retrieve_example_50:
  "getRelevantContext nb (indexOf exampleCorpus) [] 50 8
     = Fulfilled (Some \<lparr>contextText = contextPrefix @ ''[a.pdf p.1]'' @ [CHR 0x0A]
                                        @ ''Floors must be swept daily.'',
                         segments = [\<lparr>segDocName = ''a.pdf'', segPage = 1, charCount = 39\<rparr>]\<rparr>)"
  by (simp add: getRelevantContext_def length_exampleCorpus pickChunks_example_empty_query
      sliceTo_def example_eval)
text \<open>
  The example corpus under the empty query and a budget of 50: the first block costs 43,
  the second would bring the total to 65.
\<close>

theorem budget_respected_witness:
  "getRelevantContext doubleNumbers (indexOf exampleCorpus) [] 50 8
     = Fulfilled (Some \<lparr>contextText = contextPrefix @ ''[a.pdf p.1]'' @ [CHR 0x0A]
                                        @ ''Floors must be swept daily.'',
                         segments = [\<lparr>segDocName = ''a.pdf'', segPage = 1, charCount = 39\<rparr>]\<rparr>)
   \<and> segmentCost [\<lparr>segDocName = ''a.pdf'', segPage = 1, charCount = 39\<rparr>] \<le> 50
   \<and> 50 < segmentCost [\<lparr>segDocName = ''a.pdf'', segPage = 1, charCount = 39\<rparr>]
            + int (length (blockOf (exampleChunk ''a.pdf'' 2 ''Trash.''))) + 4"
proof -
  let ?seg = "\<lparr>segDocName = ''a.pdf'', segPage = 1, charCount = 39\<rparr>"
  let ?r = "\<lparr>contextText = contextPrefix @ ''[a.pdf p.1]'' @ [CHR 0x0A]
                                  @ ''Floors must be swept daily.'',
             segments = [?seg]\<rparr>"
  have ev: "getRelevantContext doubleNumbers (indexOf exampleCorpus) [] 50 8 = Fulfilled (Some ?r)"
    by (rule retrieve_example_50)
  have picked: "pickChunks doubleNumbers (indexOf exampleCorpus) [] 8
                  = [(exampleChunk ''a.pdf'' 1 ''Floors must be swept daily.'', 0),
                     (exampleChunk ''a.pdf'' 2 ''Trash.'', 0)]"
    by (simp add: pickChunks_example_empty_query sliceTo_def)
  from budget_respected [OF ev]
  have within: "segmentCost (segments ?r) \<le> 50"
    and stop: "length (segments ?r) < length (pickChunks doubleNumbers (indexOf exampleCorpus) [] 8) \<longrightarrow>
            50 < segmentCost (segments ?r)
               + int (length (blockOf (fst (pickChunks doubleNumbers (indexOf exampleCorpus) [] 8
                                             ! length (segments ?r))))) + 4"
    by blast+
  from within have "segmentCost [?seg] \<le> 50" by simp
  moreover from stop have "50 < segmentCost [?seg]
            + int (length (blockOf (exampleChunk ''a.pdf'' 2 ''Trash.''))) + 4"
    by (simp add: picked)
  ultimately show ?thesis using ev by blast
qed

subsection \<open>Length of the returned text\<close>

lemma length_join:
  "int (length (join sep xs))
     = (\<Sum>x\<leftarrow>xs. int (length x)) + int (length sep) * (int (length xs) - 1) + (if xs = [] then int (length sep) else 0)"
  by (induction sep xs rule: join.induct) (simp_all add: algebra_simps)

lemma length_contextPrefix: "length contextPrefix = 67"
  by (simp add: contextPrefix_def)

lemma length_blockSeparator: "length blockSeparator = 7"
  by (simp add: blockSeparator_def)

text \<open>
  Claim C10. In a result, the character count of each segment is the length of the header,
  one for the newline, and the length of the normalized chunk text; only the sum of the
  counts with 4 each is bounded by \<open>charBudget\<close>. The text is the prefix of 67 characters
  and the blocks joined by the separator of 7 characters, so its length is 67, the counts,
  and 7 for each block after the first; and there is a call whose text is longer than
  its budget.
\<close>

theorem provenance_and_text_length:
  assumes "getRelevantContext nb index query charBudget topK = Fulfilled (Some r)"
  shows "(\<forall>j<length (segments r).
            charCount (segments r ! j)
              = length (headerOf (fst (pickChunks nb index query topK ! j))) + 1
                + length (normalizeWhitespace (chunkText (fst (pickChunks nb index query topK ! j)))))
       \<and> segmentCost (segments r) \<le> charBudget
       \<and> contextText r
            = contextPrefix @ join blockSeparator
                (map blockOf (take (length (segments r)) (map fst (pickChunks nb index query topK))))
       \<and> length contextPrefix = 67 \<and> length blockSeparator = 7
       \<and> int (length (contextText r))
            = 67 + (\<Sum>s\<leftarrow>segments r. int (charCount s)) + 7 * (int (length (segments r)) - 1)
       \<and> (\<exists>index' query' charBudget' topK' r'.
             getRelevantContext nb index' query' charBudget' topK' = Fulfilled (Some r')
           \<and> charBudget' < int (length (contextText r')))"
proof -
  let ?picked = "map fst (pickChunks nb index query topK)"
  let ?inc = "assemble charBudget 0 ?picked"
  let ?m = "length (segments r)"
  note r = getRelevantContext_Some [OF assms]
  have len: "?m = length ?inc" by (simp add: r(3))
  have m_le: "?m \<le> length ?picked"
    unfolding len by (subst assemble_take) simp
  have m_pos: "0 < ?m" using r(1) by (simp add: len)
  have seg: "segments r = map segmentOf (take ?m ?picked)"
    by (rule included_blocks(1) [OF assms])
  have blocks: "map fst ?inc = map blockOf (take ?m ?picked)"
    unfolding len by (subst assemble_take) (simp add: comp_def)
  have 1: "charCount (segments r ! j)
              = length (headerOf (fst (pickChunks nb index query topK ! j))) + 1
                + length (normalizeWhitespace (chunkText (fst (pickChunks nb index query topK ! j))))"
    if "j < ?m" for j
  proof -
    from that m_le have "segments r ! j = segmentOf (fst (pickChunks nb index query topK ! j))"
      by (subst seg) simp
    then show ?thesis by (simp add: segmentOf_def blockOf_def)
  qed
  have 2: "segmentCost (segments r) \<le> charBudget"
    by (rule included_blocks(2) [OF assms])
  have 3: "contextText r = contextPrefix @ join blockSeparator (map blockOf (take ?m ?picked))"
    by (simp add: r(2) blocks)
  have sum: "(\<Sum>x\<leftarrow>map blockOf (take ?m ?picked). int (length x))
               = (\<Sum>s\<leftarrow>segments r. int (charCount s))"
    by (subst (2) seg) (simp add: segmentOf_def comp_def)
  have ne: "map blockOf (take ?m ?picked) \<noteq> []"
    using m_pos m_le by (cases ?picked) auto
  have lenb: "int (length (map blockOf (take ?m ?picked))) = int ?m"
    using m_le by simp
  have 4: "int (length (contextText r))
            = 67 + (\<Sum>s\<leftarrow>segments r. int (charCount s)) + 7 * (int ?m - 1)"
    unfolding 3 using ne
    by (simp only: length_append of_nat_add length_join sum lenb length_contextPrefix
        length_blockSeparator if_False)
  have 5: "\<exists>index' query' charBudget' topK' r'.
             getRelevantContext nb index' query' charBudget' topK' = Fulfilled (Some r')
           \<and> charBudget' < int (length (contextText r'))"
    by (rule exI [of _ "indexOf exampleCorpus"], rule exI [of _ "[]"], rule exI [of _ 50],
        rule exI [of _ 8], subst retrieve_example_50)
       (simp add: length_contextPrefix)
  from 1 2 3 4 5 length_contextPrefix length_blockSeparator show ?thesis by blast
qed

text \<open>
  The same call: one segment of 39 characters, a text of 106 characters, a budget of 50.
\<close>

theorem provenance_and_text_length_witness:
  "charCount \<lparr>segDocName = ''a.pdf'', segPage = 1, charCount = 39\<rparr>
     = length (headerOf (exampleChunk ''a.pdf'' 1 ''Floors must be swept daily.'')) + 1
       + length (normalizeWhitespace ''Floors must be swept daily.'')
   \<and> int (length (contextPrefix @ ''[a.pdf p.1]'' @ [CHR 0x0A] @ ''Floors must be swept daily.''))
       = 67 + 39 + 7 * (1 - 1)
   \<and> 50 < int (length (contextPrefix @ ''[a.pdf p.1]'' @ [CHR 0x0A]
                             @ ''Floors must be swept daily.''))"
proof -
  let ?seg = "\<lparr>segDocName = ''a.pdf'', segPage = 1, charCount = 39\<rparr>"
  let ?r = "\<lparr>contextText = contextPrefix @ ''[a.pdf p.1]'' @ [CHR 0x0A]
                                  @ ''Floors must be swept daily.'',
             segments = [?seg]\<rparr>"
  have ev: "getRelevantContext doubleNumbers (indexOf exampleCorpus) [] 50 8 = Fulfilled (Some ?r)"
    by (rule retrieve_example_50)
  have picked: "pickChunks doubleNumbers (indexOf exampleCorpus) [] 8
                  = [(exampleChunk ''a.pdf'' 1 ''Floors must be swept daily.'', 0),
                     (exampleChunk ''a.pdf'' 2 ''Trash.'', 0)]"
    by (simp add: pickChunks_example_empty_query sliceTo_def)
  from provenance_and_text_length [OF ev]
  have count: "\<forall>j<length (segments ?r).
            charCount (segments ?r ! j)
              = length (headerOf (fst (pickChunks doubleNumbers (indexOf exampleCorpus) [] 8 ! j))) + 1
                + length (normalizeWhitespace
                    (chunkText (fst (pickChunks doubleNumbers (indexOf exampleCorpus) [] 8 ! j))))"
    and len: "int (length (contextText ?r))
            = 67 + (\<Sum>s\<leftarrow>segments ?r. int (charCount s)) + 7 * (int (length (segments ?r)) - 1)"
    by blast+
  from count have "charCount (segments ?r ! 0)
              = length (headerOf (fst (pickChunks doubleNumbers (indexOf exampleCorpus) [] 8 ! 0))) + 1
                + length (normalizeWhitespace
                    (chunkText (fst (pickChunks doubleNumbers (indexOf exampleCorpus) [] 8 ! 0))))"
    by simp
  then have "charCount ?seg
     = length (headerOf (exampleChunk ''a.pdf'' 1 ''Floors must be swept daily.'')) + 1
       + length (normalizeWhitespace ''Floors must be swept daily.'')"
    by (simp add: picked)
  moreover from len
  have "int (length (contextPrefix @ ''[a.pdf p.1]'' @ [CHR 0x0A] @ ''Floors must be swept daily.''))
       = 67 + 39 + 7 * (1 - 1)"
    by simp
  ultimately show ?thesis by (simp add: length_contextPrefix)
qed

subsection \<open>When retrieval returns none\<close>

lemma pickChunks_nonempty:
  assumes "chunks index \<noteq> []" and "1 \<le> topK"
  shows "pickChunks nb index query topK \<noteq> []"
proof -
  let ?scoredAll = "sort_key (\<lambda>x. - snd x)
                        (map (\<lambda>c. (c, scoreChunk nb (tokenize query) c (df index) (totalChunks index)))
                             (chunks index))"
  from assms(1) have "?scoredAll \<noteq> []"
    by (metis length_0_conv length_map length_sort)
  with assms(2) have "sliceTo ?scoredAll topK \<noteq> []"
    by (cases ?scoredAll) (auto simp: sliceTo_def nat_eq_iff)
  then show ?thesis
    by (auto simp: pickChunks_def Let_def)
qed

lemma assemble_empty_iff:
  "assemble B 0 (c # cs) = [] \<longleftrightarrow> B < int (length (blockOf c)) + 4"
  by (auto simp: Let_def)

text \<open>
  Claim C4, as the code has it. For \<open>topK \<ge> 1\<close> retrieval always resolves, never rejects,
  and it resolves to none exactly when the index is empty or the first selected block with
  its overhead of 4 exceeds \<open>charBudget\<close>. The assembly loop stops at the first block that
  does not fit; a later, shorter block is not tried.
\<close>

theorem none_iff_first_block_too_large:
  assumes "1 \<le> topK"
  shows "(\<exists>r. getRelevantContext nb (indexOf cs) query charBudget topK = Fulfilled r)
       \<and> (cs \<noteq> [] \<longrightarrow> pickChunks nb (indexOf cs) query topK \<noteq> [])
       \<and> (getRelevantContext nb (indexOf cs) query charBudget topK = Fulfilled None
            \<longleftrightarrow> cs = []
              \<or> charBudget
                   < int (length (blockOf (fst (hd (pickChunks nb (indexOf cs) query topK))))) + 4)"
proof -
  have 1: "\<exists>r. getRelevantContext nb (indexOf cs) query charBudget topK = Fulfilled r"
    by (simp add: getRelevantContext_def Let_def)
  have 2: "pickChunks nb (indexOf cs) query topK \<noteq> []" if "cs \<noteq> []"
    using that assms by (intro pickChunks_nonempty) simp_all
  have 3: "getRelevantContext nb (indexOf cs) query charBudget topK = Fulfilled None
            \<longleftrightarrow> cs = []
              \<or> charBudget
                   < int (length (blockOf (fst (hd (pickChunks nb (indexOf cs) query topK))))) + 4"
  proof (cases "cs = []")
    case True
    then show ?thesis by (simp add: getRelevantContext_def)
  next
    case False
    from 2 [OF False] obtain x xs where picked: "pickChunks nb (indexOf cs) query topK = x # xs"
      by (cases "pickChunks nb (indexOf cs) query topK") auto
    from False show ?thesis
      by (simp add: getRelevantContext_def Let_def picked del: assemble.simps)
         (simp add: Let_def)
  qed
  from 1 2 3 show ?thesis by blast
qed

text \<open>
  The first block of the example corpus has 39 characters: a budget of 42 gives none,
  a budget of 43 gives a result.
\<close>

theorem none_iff_first_block_too_large_witness:
  "getRelevantContext doubleNumbers (indexOf exampleCorpus) [] 42 8 = Fulfilled None
   \<and> getRelevantContext doubleNumbers (indexOf exampleCorpus) [] 43 8 \<noteq> Fulfilled None"
proof -
  have h: "(1::int) \<le> 8" by simp
  have picked: "pickChunks doubleNumbers (indexOf exampleCorpus) [] 8
                  = [(exampleChunk ''a.pdf'' 1 ''Floors must be swept daily.'', 0),
                     (exampleChunk ''a.pdf'' 2 ''Trash.'', 0)]"
    by (simp add: pickChunks_example_empty_query sliceTo_def)
  have ne: "exampleCorpus \<noteq> []" by (simp add: exampleCorpus_def)
  have len: "int (length (blockOf (fst (hd (pickChunks doubleNumbers (indexOf exampleCorpus) [] 8))))) + 4 = 43"
    by (simp add: picked example_eval)
  from none_iff_first_block_too_large [OF h, where nb = doubleNumbers and cs = exampleCorpus
      and query = "[]" and charBudget = 42]
  have "getRelevantContext doubleNumbers (indexOf exampleCorpus) [] 42 8 = Fulfilled None"
    by (simp add: len)
  moreover from none_iff_first_block_too_large [OF h, where nb = doubleNumbers and cs = exampleCorpus
      and query = "[]" and charBudget = 43]
  have "getRelevantContext doubleNumbers (indexOf exampleCorpus) [] 43 8 \<noteq> Fulfilled None"
    using ne by (simp add: len)
  ultimately show ?thesis by blast
qed

text \<open>
  Claim C4 as stated fails: with a budget of 30 the answer is none although the index is
  not empty and the block of the second chunk, with its overhead, has 22 characters.
\<close>

theorem none_although_a_block_fits:
  "getRelevantContext doubleNumbers (indexOf exampleCorpus) [] 30 8 = Fulfilled None
   \<and> chunks (indexOf exampleCorpus) \<noteq> []
   \<and> exampleChunk ''a.pdf'' 2 ''Trash.'' \<in> set (chunks (indexOf exampleCorpus))
   \<and> int (length (blockOf (exampleChunk ''a.pdf'' 2 ''Trash.''))) + 4 \<le> 30"
  by (simp add: getRelevantContext_def length_exampleCorpus pickChunks_example_empty_query
      sliceTo_def example_eval) (simp add: exampleCorpus_def)

subsection \<open>Parameters are not validated\<close>

text \<open>
  Claim C5, as the code has it. Retrieval checks neither parameter and never rejects: for
  every budget and every \<open>topK\<close> it resolves; with a budget of at most 0, or with \<open>topK = 0\<close>,
  it resolves to none.
\<close>

theorem no_validation:
  "(\<exists>r. getRelevantContext nb index query charBudget topK = Fulfilled r)
   \<and> (charBudget \<le> 0 \<longrightarrow> getRelevantContext nb index query charBudget topK = Fulfilled None)
   \<and> (topK = 0 \<longrightarrow> getRelevantContext nb index query charBudget topK = Fulfilled None)"
proof -
  have 1: "\<exists>r. getRelevantContext nb index query charBudget topK = Fulfilled r"
    by (simp add: getRelevantContext_def Let_def)
  have 2: "getRelevantContext nb index query charBudget topK = Fulfilled None" if "charBudget \<le> 0"
  proof -
    have "assemble charBudget 0 xs = []" for xs
      using that by (cases xs) (simp_all add: Let_def)
    then show ?thesis by (simp add: getRelevantContext_def Let_def)
  qed
  have 3: "getRelevantContext nb index query charBudget topK = Fulfilled None" if "topK = 0"
  proof -
    from that have "pickChunks nb index query topK = []"
      by (simp add: pickChunks_def Let_def sliceTo_def)
    then show ?thesis by (simp add: getRelevantContext_def Let_def)
  qed
  from 1 2 3 show ?thesis by blast
qed

text \<open>
  A budget of 0 and a \<open>topK\<close> of 0 on the example corpus.
\<close>

theorem no_validation_witness:
  "getRelevantContext doubleNumbers (indexOf exampleCorpus) ''trash'' 0 8 = Fulfilled None
   \<and> getRelevantContext doubleNumbers (indexOf exampleCorpus) ''trash'' 4000 0 = Fulfilled None"
  using no_validation [of doubleNumbers "indexOf exampleCorpus" "''trash''" 0 8]
    no_validation [of doubleNumbers "indexOf exampleCorpus" "''trash''" 4000 0]
  by simp

text \<open>
  Claim C5 as stated fails: a negative budget gives none, and a negative \<open>topK\<close> gives a
  result (\<^verbatim>\<open>slice(0, -1)\<close> keeps all but the last chunk); neither call rejects.
\<close>

theorem invalid_parameters_return_normally:
  "getRelevantContext doubleNumbers (indexOf exampleCorpus) [] (- 1) 8 = Fulfilled None
   \<and> getRelevantContext doubleNumbers (indexOf exampleCorpus) [] 50 (- 1)
       = Fulfilled (Some \<lparr>contextText = contextPrefix @ ''[a.pdf p.1]'' @ [CHR 0x0A]
                                          @ ''Floors must be swept daily.'',
                           segments = [\<lparr>segDocName = ''a.pdf'', segPage = 1, charCount = 39\<rparr>]\<rparr>)"
  by (simp add: getRelevantContext_def length_exampleCorpus pickChunks_example_empty_query
      sliceTo_def example_eval)

subsection \<open>The document-frequency table after the build\<close>

text \<open>
  Claim C7. After the build, the table maps a token to the number of chunks whose tokens
  contain it, each chunk counted once however often the token occurs in it; a token of no
  chunk has no entry. This holds for the index over any chunks, so for both variants of
  \<^verbatim>\<open>buildIndex\<close>.
\<close>

theorem df_counts_chunks:
  "df (indexOf cs) t = (if chunksWith t cs = 0 then None else Some (chunksWith t cs))
   \<and> df (buildIndex env filePaths) t
       = (if chunksWith t (chunks (buildIndex env filePaths)) = 0 then None
          else Some (chunksWith t (chunks (buildIndex env filePaths))))
   \<and> df (buildIndexJs envJs filePaths) t
       = (if chunksWith t (chunks (buildIndexJs envJs filePaths)) = 0 then None
          else Some (chunksWith t (chunks (buildIndexJs envJs filePaths))))"
  by (simp add: buildIndex_def buildIndexJs_def buildDf_lookup)

subsection \<open>The ranking on the example corpus\<close>

lemma tokenize_floors:
  "tokenize ''Floors must be swept daily.'' = [''floors'', ''must'', ''be'', ''swept'', ''daily'']"
  by code_simp

lemma tokenize_trash: "tokenize ''Trash.'' = [''trash'']"
  by code_simp

lemma tokenize_query_trash: "tokenize ''trash'' = [''trash'']"
  by code_simp

lemma chunksWith_trash_example: "chunksWith ''trash'' exampleCorpus = 1"
  by (simp add: chunksWith_def exampleCorpus_def tokenize_floors tokenize_trash)

lemma scoreAt_example_0: "scoreAt nb exampleCorpus ''trash'' 0 = 0"
  by (simp add: scoreAt_def scoreChunk_fold tokenize_query_trash addTerm_def exampleCorpus_def
      tokenize_floors)

lemma scoreAt_example_1:
  "scoreAt doubleNumbers exampleCorpus ''trash'' (Suc 0) = 1826052509787667 / 2 ^ 52"
proof -
  have "docFreqOf (buildDf exampleCorpus) ''trash'' = 1"
    by (simp add: docFreqOf_def buildDf_lookup chunksWith_trash_example)
  moreover have "exampleCorpus ! Suc 0 = exampleChunk ''a.pdf'' 2 ''Trash.''"
    by (simp add: exampleCorpus_def)
  ultimately have "scoreAt doubleNumbers exampleCorpus ''trash'' (Suc 0)
                     = roundBinary64 (roundBinary64 (1826052509787667 / 2 ^ 52))"
    using double_half_3
    by (simp add: scoreAt_def scoreChunk_fold tokenize_query_trash addTerm_def idfOf_def
        tokenize_trash length_exampleCorpus doubleNumbers_def double_counts)
  then show ?thesis by (simp only: double_15)
qed

lemma rankBefore_distinct: "sorted_wrt (rankBefore sc) xs \<Longrightarrow> distinct xs"
  by (induction xs) (auto simp: rankBefore_def)

lemma distinct_singleton_set:
  assumes "distinct xs" and "set xs = {a}"
  shows "xs = [a]"
proof (cases xs)
  case Nil
  with assms(2) show ?thesis by simp
next
  case (Cons x ys)
  with assms have "x = a" and "set ys \<subseteq> {a}" and "a \<notin> set ys" by auto
  then have "ys = []" by (cases ys) auto
  with Cons \<open>x = a\<close> show ?thesis by simp
qed

text \<open>
  The five pages under the query \<^verbatim>\<open>bin bag mop\<close>, scored in doubles and scored without
  rounding error.
\<close>

lemma tokenize_page_1: "tokenize ''bin bin bin'' = [''bin'', ''bin'', ''bin'']"
  by code_simp

lemma tokenize_page_2:
  "tokenize ''bag mop bag mop bag mop'' = [''bag'', ''mop'', ''bag'', ''mop'', ''bag'', ''mop'']"
  by code_simp

lemma tokenize_page_3: "tokenize ''bag mop'' = [''bag'', ''mop'']"
  by code_simp

lemma tokenize_page_4: "tokenize ''mop'' = [''mop'']"
  by code_simp

lemma tokenize_page_5: "tokenize ''floor'' = [''floor'']"
  by code_simp

lemma tokenize_bin_bag_mop: "tokenize ''bin bag mop'' = [''bin'', ''bag'', ''mop'']"
  by code_simp

lemmas tokenize_fivePages =
  tokenize_page_1 tokenize_page_2 tokenize_page_3 tokenize_page_4 tokenize_page_5

lemma length_fivePages: "length fivePages = 5"
  by (simp add: fivePages_def)

lemma docFreqOf_fivePages:
  "docFreqOf (buildDf fivePages) ''bin'' = 1"
  "docFreqOf (buildDf fivePages) ''bag'' = 2"
  "docFreqOf (buildDf fivePages) ''mop'' = 3"
  by (simp_all add: docFreqOf_def buildDf_lookup chunksWith_def fivePages_def tokenize_fivePages)

lemma idfOf_fivePages:
  "idfOf doubleNumbers (buildDf fivePages) 5 ''bin'' = 2473854946935173 / 2 ^ 51"
  "idfOf doubleNumbers (buildDf fivePages) 5 ''bag'' = 6243314768165359 / 2 ^ 53"
  "idfOf doubleNumbers (buildDf fivePages) 5 ''mop'' = 1826052509787667 / 2 ^ 52"
  using double_half_3
  by (simp_all add: idfOf_def docFreqOf_fivePages doubleNumbers_def double_counts)

lemma round_3_log_3:
  "roundBinary64 (3 * (2473854946935173 / 2 ^ 51)) = 7421564840805519 / 2 ^ 51"
  using roundBinary64_eval [where e = "- 51" and x = "3 * (2473854946935173 / 2 ^ 51)"]
  by (simp add: power_int_minus_divide roundToEven_def)

lemma round_sum_0: "roundBinary64 (7421564840805519 / 2 ^ 51) = 7421564840805519 / 2 ^ 51"
  using roundBinary64_eval [where e = "- 51" and x = "7421564840805519 / 2 ^ 51"]
  by (simp add: power_int_minus_divide roundToEven_def)

lemma round_3_log_2:
  "roundBinary64 (3 * (6243314768165359 / 2 ^ 53)) = 4682486076124019 / 2 ^ 51"
  using roundBinary64_eval [where e = "- 51" and x = "3 * (6243314768165359 / 2 ^ 53)"]
  by (simp add: power_int_minus_divide roundToEven_def)

lemma round_3_log_15:
  "roundBinary64 (3 * (1826052509787667 / 2 ^ 52)) = 5478157529363001 / 2 ^ 52"
  using roundBinary64_eval [where e = "- 52" and x = "3 * (1826052509787667 / 2 ^ 52)"]
  by (simp add: power_int_minus_divide roundToEven_def)

lemma round_sum_1a: "roundBinary64 (4682486076124019 / 2 ^ 51) = 4682486076124019 / 2 ^ 51"
  using roundBinary64_eval [where e = "- 51" and x = "4682486076124019 / 2 ^ 51"]
  by (simp add: power_int_minus_divide roundToEven_def)

lemma round_sum_1:
  "roundBinary64 (4682486076124019 / 2 ^ 51 + 5478157529363001 / 2 ^ 52)
     = 7421564840805520 / 2 ^ 51"
  using roundBinary64_eval
    [where e = "- 51" and x = "4682486076124019 / 2 ^ 51 + 5478157529363001 / 2 ^ 52"]
  by (simp add: power_int_minus_divide roundToEven_def)

lemma round_sum_2:
  "roundBinary64 (6243314768165359 / 2 ^ 53 + 1826052509787667 / 2 ^ 52)
     = 2473854946935173 / 2 ^ 51"
  using roundBinary64_eval
    [where e = "- 52" and x = "6243314768165359 / 2 ^ 53 + 1826052509787667 / 2 ^ 52"]
  by (simp add: power_int_minus_divide roundToEven_def)

lemma fivePages_nth:
  "fivePages ! 0 = exampleChunk ''c.pdf'' 1 ''bin bin bin''"
  "fivePages ! Suc 0 = exampleChunk ''c.pdf'' 2 ''bag mop bag mop bag mop''"
  "fivePages ! 2 = exampleChunk ''c.pdf'' 3 ''bag mop''"
  "fivePages ! 3 = exampleChunk ''c.pdf'' 4 ''mop''"
  "fivePages ! 4 = exampleChunk ''c.pdf'' 5 ''floor''"
  by (simp_all add: fivePages_def numeral_2_eq_2 numeral_3_eq_3 eval_nat_numeral)

lemmas scoreAt_fivePages_unfold =
  scoreAt_def scoreChunk_fold tokenize_bin_bag_mop length_fivePages fivePages_nth
  tokenize_fivePages addTerm_def idfOf_fivePages

lemma scoreAt_fivePages_0:
  "scoreAt doubleNumbers fivePages ''bin bag mop'' 0 = 7421564840805519 / 2 ^ 51"
proof -
  have "scoreAt doubleNumbers fivePages ''bin bag mop'' 0
          = roundBinary64 (roundBinary64 (3 * (2473854946935173 / 2 ^ 51)))"
    by (simp add: scoreAt_fivePages_unfold) (simp add: doubleNumbers_def)
  then show ?thesis by (simp only: round_3_log_3 round_sum_0)
qed

lemma scoreAt_fivePages_1:
  "scoreAt doubleNumbers fivePages ''bin bag mop'' (Suc 0) = 7421564840805520 / 2 ^ 51"
proof -
  have "scoreAt doubleNumbers fivePages ''bin bag mop'' (Suc 0)
          = roundBinary64 (roundBinary64 (roundBinary64 (3 * (6243314768165359 / 2 ^ 53)))
              + roundBinary64 (3 * (1826052509787667 / 2 ^ 52)))"
    by (simp add: scoreAt_fivePages_unfold) (simp add: doubleNumbers_def)
  then show ?thesis by (simp only: round_3_log_2 round_sum_1a round_3_log_15 round_sum_1)
qed

lemma scoreAt_fivePages_2:
  "scoreAt doubleNumbers fivePages ''bin bag mop'' 2 = 2473854946935173 / 2 ^ 51"
proof -
  have "scoreAt doubleNumbers fivePages ''bin bag mop'' 2
          = roundBinary64 (roundBinary64 (roundBinary64 (6243314768165359 / 2 ^ 53))
              + roundBinary64 (1826052509787667 / 2 ^ 52))"
    by (simp add: scoreAt_fivePages_unfold) (simp add: doubleNumbers_def)
  then show ?thesis by (simp only: double_2 double_15 round_sum_2)
qed

lemma scoreAt_fivePages_3:
  "scoreAt doubleNumbers fivePages ''bin bag mop'' 3 = 1826052509787667 / 2 ^ 52"
proof -
  have "scoreAt doubleNumbers fivePages ''bin bag mop'' 3
          = roundBinary64 (roundBinary64 (1826052509787667 / 2 ^ 52))"
    by (simp add: scoreAt_fivePages_unfold) (simp add: doubleNumbers_def)
  then show ?thesis by (simp only: double_15)
qed

lemma scoreAt_fivePages_4:
  "scoreAt doubleNumbers fivePages ''bin bag mop'' 4 = 0"
  by (simp add: scoreAt_fivePages_unfold)

lemma ranked_head:
  assumes "sorted_wrt (rankBefore sc) xs" and "a \<in> set xs"
    and "\<forall>b\<in>set xs. b \<noteq> a \<longrightarrow> rankBefore sc a b"
  shows "\<exists>rest. xs = a # rest"
proof (cases xs)
  case Nil
  with assms(2) show ?thesis by simp
next
  case (Cons x rest)
  have "x = a"
  proof (rule ccontr)
    assume "x \<noteq> a"
    with assms(2) Cons have "a \<in> set rest" by simp
    with assms(1) Cons have "rankBefore sc x a" by simp
    moreover from assms(3) Cons \<open>x \<noteq> a\<close> have "rankBefore sc a x" by simp
    ultimately show False by (auto simp: rankBefore_def)
  qed
  with Cons show ?thesis by simp
qed

lemma below_5:
  fixes b :: nat
  assumes "b < 5"
  shows "b = 0 \<or> b = Suc 0 \<or> b = 2 \<or> b = 3 \<or> b = 4"
  using assms by arith

lemma ln_3_split: "ln (3::real) = ln 2 + ln (3 / 2)"
  using ln_mult [of "2::real" "3 / 2"] by simp

lemma scoreAt_fivePages_exact:
  "scoreAt exactNumbers fivePages ''bin bag mop'' 0 = 3 * ln 3"
  "scoreAt exactNumbers fivePages ''bin bag mop'' (Suc 0) = 3 * ln 3"
  "scoreAt exactNumbers fivePages ''bin bag mop'' 2 = ln 3"
  "scoreAt exactNumbers fivePages ''bin bag mop'' 3 = ln (3 / 2)"
  "scoreAt exactNumbers fivePages ''bin bag mop'' 4 = 0"
  by (simp_all add: scoreAt_def scoreChunk_fold tokenize_bin_bag_mop length_fivePages fivePages_nth
      tokenize_fivePages addTerm_def idfOf_def docFreqOf_fivePages exactNumbers_def ln_3_split)

text \<open>
  The example corpus under the query \<^verbatim>\<open>trash\<close>: only the second chunk scores. Under the
  empty query the selection is the corpus in its own order. Of the five pages under the
  query \<^verbatim>\<open>bin bag mop\<close> and \<open>topK = 1\<close>, page 2 is selected: its score in doubles,
  \<open>7421564840805520 / 2\<^sup>5\<^sup>1\<close> (printed \<^verbatim>\<open>3.295836866004329\<close>), is one unit in the last place above
  that of page 1, \<open>7421564840805519 / 2\<^sup>5\<^sup>1\<close> (printed \<^verbatim>\<open>3.2958368660043287\<close>). Without rounding
  error the two scores would be equal and page 1, the earlier, would be selected.
\<close>

theorem pickChunks_ranking_witness:
  "pickChunks doubleNumbers (indexOf exampleCorpus) ''trash'' 8
     = [(exampleChunk ''a.pdf'' 2 ''Trash.'', 1826052509787667 / 2 ^ 52)]
   \<and> map fst (pickChunks doubleNumbers (indexOf exampleCorpus) [] 8) = exampleCorpus
   \<and> map fst (pickChunks doubleNumbers (indexOf fivePages) ''bin bag mop'' 1)
     = [exampleChunk ''c.pdf'' 2 ''bag mop bag mop bag mop'']
   \<and> map fst (pickChunks exactNumbers (indexOf fivePages) ''bin bag mop'' 1)
     = [exampleChunk ''c.pdf'' 1 ''bin bin bin'']"
proof -
  let ?sc = "scoreAt doubleNumbers exampleCorpus ''trash''"
  have h1: "exampleCorpus \<noteq> []" by (simp add: exampleCorpus_def)
  have h2: "(0::int) \<le> 8" by simp
  have pos1: "0 < ?sc (Suc 0)" by (simp add: scoreAt_example_1)
  have some_pos: "\<exists>i<length exampleCorpus. 0 < ?sc i"
    using pos1 by (auto simp: length_exampleCorpus intro!: exI [of _ "Suc 0"])
  from pickChunks_ranking [OF h1 h2 signSafe_doubleNumbers, of "''trash''"] obtain ranked where
    set_ranked: "set ranked = {0..<length exampleCorpus}"
    and sorted: "sorted_wrt (rankBefore ?sc) ranked"
    and picked: "pickChunks doubleNumbers (indexOf exampleCorpus) ''trash'' 8
             = map (\<lambda>i. (exampleCorpus ! i, ?sc i))
                 (if \<exists>i<length exampleCorpus. 0 < ?sc i
                  then take (nat 8) (filter (\<lambda>i. 0 < ?sc i) ranked)
                  else take (nat 8) [0..<length exampleCorpus])"
    by blast
  have "i \<in> set ranked \<and> 0 < ?sc i \<longleftrightarrow> i = Suc 0" for i
  proof
    assume a: "i \<in> set ranked \<and> 0 < ?sc i"
    then have "i = 0 \<or> i = Suc 0" by (auto simp: set_ranked length_exampleCorpus)
    with a show "i = Suc 0" by (auto simp: scoreAt_example_0)
  next
    assume "i = Suc 0"
    with pos1 show "i \<in> set ranked \<and> 0 < ?sc i"
      by (simp add: set_ranked length_exampleCorpus)
  qed
  then have "set (filter (\<lambda>i. 0 < ?sc i) ranked) = {Suc 0}" by auto
  moreover have "distinct (filter (\<lambda>i. 0 < ?sc i) ranked)"
    using sorted by (simp add: rankBefore_distinct)
  ultimately have "filter (\<lambda>i. 0 < ?sc i) ranked = [Suc 0]"
    by (rule distinct_singleton_set [rotated])
  moreover have "exampleCorpus ! Suc 0 = exampleChunk ''a.pdf'' 2 ''Trash.''"
    by (simp add: exampleCorpus_def)
  ultimately have ranked_trash:
    "pickChunks doubleNumbers (indexOf exampleCorpus) ''trash'' 8
       = [(exampleChunk ''a.pdf'' 2 ''Trash.'', 1826052509787667 / 2 ^ 52)]"
    using picked some_pos by (simp add: scoreAt_example_1)
  have "\<forall>c\<in>set exampleCorpus. set (tokenize []) \<inter> set (tokenize (chunkText c)) = {}"
    by (simp add: tokenize_empty)
  with pickChunks_ranking [OF h1 h2 signSafe_doubleNumbers, of "[]"]
  have "map fst (pickChunks doubleNumbers (indexOf exampleCorpus) [] 8) = take (nat 8) exampleCorpus"
    by blast
  then have natural: "map fst (pickChunks doubleNumbers (indexOf exampleCorpus) [] 8) = exampleCorpus"
    by (simp add: length_exampleCorpus)
  have f1: "fivePages \<noteq> []" by (simp add: fivePages_def)
  have f2: "(0::int) \<le> 1" by simp
  have doubles: "map fst (pickChunks doubleNumbers (indexOf fivePages) ''bin bag mop'' 1)
     = [exampleChunk ''c.pdf'' 2 ''bag mop bag mop bag mop'']"
  proof -
    let ?sc = "scoreAt doubleNumbers fivePages ''bin bag mop''"
    have some_pos: "\<exists>i<length fivePages. 0 < ?sc i"
      by (rule exI [of _ "Suc 0"]) (simp add: length_fivePages scoreAt_fivePages_1)
    from pickChunks_ranking [OF f1 f2 signSafe_doubleNumbers, of "''bin bag mop''"]
    obtain ranked where
      set_ranked: "set ranked = {0..<length fivePages}"
      and sorted: "sorted_wrt (rankBefore ?sc) ranked"
      and picked: "pickChunks doubleNumbers (indexOf fivePages) ''bin bag mop'' 1
               = map (\<lambda>i. (fivePages ! i, ?sc i))
                   (if \<exists>i<length fivePages. 0 < ?sc i
                    then take (nat 1) (filter (\<lambda>i. 0 < ?sc i) ranked)
                    else take (nat 1) [0..<length fivePages])"
      by blast
    let ?pos = "filter (\<lambda>i. 0 < ?sc i) ranked"
    have "sorted_wrt (rankBefore ?sc) ?pos" using sorted by (rule sorted_wrt_filter)
    moreover have "Suc 0 \<in> set ?pos"
      by (simp add: set_ranked length_fivePages scoreAt_fivePages_1)
    moreover have "\<forall>b\<in>set ?pos. b \<noteq> Suc 0 \<longrightarrow> rankBefore ?sc (Suc 0) b"
    proof (intro ballI impI)
      fix b assume "b \<in> set ?pos" and "b \<noteq> Suc 0"
      then have "b < 5" by (simp add: set_ranked length_fivePages)
      from below_5 [OF this] \<open>b \<noteq> Suc 0\<close> have "?sc b < ?sc (Suc 0)"
        by (auto simp: scoreAt_fivePages_0 scoreAt_fivePages_1 scoreAt_fivePages_2
            scoreAt_fivePages_3 scoreAt_fivePages_4)
      then show "rankBefore ?sc (Suc 0) b" by (simp add: rankBefore_def)
    qed
    ultimately obtain rest where "?pos = Suc 0 # rest" using ranked_head by blast
    with picked some_pos show ?thesis by (simp add: fivePages_nth)
  qed
  have exact: "map fst (pickChunks exactNumbers (indexOf fivePages) ''bin bag mop'' 1)
     = [exampleChunk ''c.pdf'' 1 ''bin bin bin'']"
  proof -
    let ?sc = "scoreAt exactNumbers fivePages ''bin bag mop''"
    have ln3: "0 < ln (3::real)" by simp
    have some_pos: "\<exists>i<length fivePages. 0 < ?sc i"
      by (rule exI [of _ 0]) (simp add: length_fivePages scoreAt_fivePages_exact)
    from pickChunks_ranking [OF f1 f2 signSafe_exactNumbers, of "''bin bag mop''"]
    obtain ranked where
      set_ranked: "set ranked = {0..<length fivePages}"
      and sorted: "sorted_wrt (rankBefore ?sc) ranked"
      and picked: "pickChunks exactNumbers (indexOf fivePages) ''bin bag mop'' 1
               = map (\<lambda>i. (fivePages ! i, ?sc i))
                   (if \<exists>i<length fivePages. 0 < ?sc i
                    then take (nat 1) (filter (\<lambda>i. 0 < ?sc i) ranked)
                    else take (nat 1) [0..<length fivePages])"
      by blast
    let ?pos = "filter (\<lambda>i. 0 < ?sc i) ranked"
    have "sorted_wrt (rankBefore ?sc) ?pos" using sorted by (rule sorted_wrt_filter)
    moreover have "0 \<in> set ?pos"
      by (simp add: set_ranked length_fivePages scoreAt_fivePages_exact)
    moreover have "\<forall>b\<in>set ?pos. b \<noteq> 0 \<longrightarrow> rankBefore ?sc 0 b"
    proof (intro ballI impI)
      fix b assume "b \<in> set ?pos" and "b \<noteq> 0"
      then have "b < 5" by (simp add: set_ranked length_fivePages)
      have "ln (3 / 2) < ln (3::real)" by simp
      with ln3 have "ln (3 / 2) < 3 * ln (3::real)" and "ln 3 < 3 * ln (3::real)" by linarith+
      with ln3 below_5 [OF \<open>b < 5\<close>] \<open>b \<noteq> 0\<close> show "rankBefore ?sc 0 b"
        by (auto simp: rankBefore_def scoreAt_fivePages_exact)
    qed
    ultimately obtain rest where "?pos = 0 # rest" using ranked_head by blast
    with picked some_pos show ?thesis by (simp add: fivePages_nth)
  qed
  from ranked_trash natural doubles exact show ?thesis by blast
qed

subsection \<open>Chunking: properties\<close>

lemma chunkLoop_concat:
  "concat (map chunkText (chunkLoop a d p t i)) = drop i t"
proof (induction a d p t i rule: chunkLoop.induct)
  case (1 a d p t i)
  show ?case
  proof (cases "i < length t")
    case True
    have "take (min (i + targetChunkChars) (length t) - i) (drop i t) @ drop (i + targetChunkChars) t
            = drop i t"
    proof (cases "i + targetChunkChars \<le> length t")
      case True
      then have "min (i + targetChunkChars) (length t) - i = targetChunkChars" by simp
      then show ?thesis
        by (simp only: add.commute [of i targetChunkChars] drop_drop [symmetric] append_take_drop_id)
    next
      case False
      then show ?thesis by simp
    qed
    with True "1.IH" show ?thesis
      by (subst chunkLoop.simps) (simp add: slice_def)
  next
    case False
    then show ?thesis by (subst chunkLoop.simps) simp
  qed
qed

lemma chunkLoop_member:
  assumes "c \<in> set (chunkLoop a d p t i)"
  shows "chunkText c \<noteq> [] \<and> length (chunkText c) \<le> 900 \<and> page c = p \<and> docName c = d
       \<and> docPath c = a
       \<and> (\<exists>k\<ge>i. k < length t \<and> chunkId c = idOf d p k \<and> chunkText c = take 900 (drop k t))"
  using assms
proof (induction a d p t i rule: chunkLoop.induct)
  case (1 a d p t i)
  show ?case
  proof (cases "i < length t")
    case True
    let ?hd = "\<lparr>chunkId = d @ ''-p'' @ showNat p @ ''-'' @ showNat i,
            docPath = a, docName = d, page = p,
            chunkText = slice t i (min (i + targetChunkChars) (length t))\<rparr>"
    from True "1.prems" have "c = ?hd \<or> c \<in> set (chunkLoop a d p t (i + targetChunkChars))"
      by (subst (asm) chunkLoop.simps) simp
    then show ?thesis
    proof
      assume c: "c = ?hd"
      have "slice t i (min (i + targetChunkChars) (length t)) = take 900 (drop i t)"
        by (simp add: slice_def targetChunkChars_def min_def)
      with c True show ?thesis
        by (auto simp: idOf_def intro!: exI [of _ i])
    next
      assume "c \<in> set (chunkLoop a d p t (i + targetChunkChars))"
      from "1.IH" [OF True this] obtain k where
        k: "i + targetChunkChars \<le> k" "k < length t" "chunkId c = idOf d p k"
           "chunkText c = take 900 (drop k t)"
        and rest: "chunkText c \<noteq> []" "length (chunkText c) \<le> 900" "page c = p"
           "docName c = d" "docPath c = a"
        by blast
      from k(1) have "i \<le> k" by simp
      with k rest show ?thesis by blast
    qed
  next
    case False
    with "1.prems" show ?thesis by (subst (asm) chunkLoop.simps) simp
  qed
qed

lemma pageChunks_member:
  assumes "c \<in> set (pageChunks env absPath p)"
  shows "chunkText c \<noteq> [] \<and> length (chunkText c) \<le> 900 \<and> page c = p
       \<and> docName c = basename absPath
       \<and> (\<exists>k. chunkId c = idOf (basename absPath) p k
              \<and> chunkText c = take 900 (drop k (extractRange env absPath (Some p) (Some p))))"
proof -
  from assms have "c \<in> set (chunkLoop absPath (basename absPath) p
                      (extractRange env absPath (Some p) (Some p)) 0)"
    by (auto simp: pageChunks_def Let_def split: if_splits)
  from chunkLoop_member [OF this] show ?thesis by blast
qed

lemma pageChunks_concat:
  "concat (map chunkText (pageChunks env absPath p)) = extractRange env absPath (Some p) (Some p)"
  by (simp add: pageChunks_def Let_def chunkLoop_concat)

lemma filter_concat_by_key:
  assumes "\<And>q c. q \<in> set qs \<Longrightarrow> c \<in> set (g q) \<Longrightarrow> key c = q"
    and "distinct qs" and "p \<in> set qs"
  shows "filter (\<lambda>c. key c = p) (concat (map g qs)) = g p"
  using assms
proof (induction qs)
  case Nil
  then show ?case by simp
next
  case (Cons q qs)
  have own: "filter (\<lambda>c. key c = q') (g q') = g q'" if "q' \<in> set (q # qs)" for q'
    using Cons.prems(1) [OF that] by (simp add: filter_id_conv)
  have other: "filter (\<lambda>c. key c = p) (g q') = []" if "q' \<in> set (q # qs)" "q' \<noteq> p" for q'
    using Cons.prems(1) [OF that(1)] that(2) by (auto simp: filter_empty_conv)
  show ?case
  proof (cases "p = q")
    case True
    with Cons.prems(2) have "p \<notin> set qs" by simp
    then have "filter (\<lambda>c. key c = p) (concat (map g qs)) = []"
      using Cons.prems(1) by (auto simp: filter_empty_conv)
    with True own [of q] show ?thesis by simp
  next
    case False
    with Cons.prems have "p \<in> set qs" "distinct qs" by auto
    with Cons.IH Cons.prems(1) have "filter (\<lambda>c. key c = p) (concat (map g qs)) = g p"
      by simp
    with other [of q] False show ?thesis by simp
  qed
qed

text \<open>
  What chunking keeps. Every chunk is non-empty and has at most 900 characters. In the
  variant on \<^verbatim>\<open>pdftotext\<close>, the chunks of page \<open>p\<close>, in the order produced, concatenate to
  the normalized text of page \<open>p\<close>, and a page of empty normalized text has no chunk;
  without a page count the same holds for the whole document as one page. In the variant
  on \<^verbatim>\<open>pdfjs-dist\<close> the chunks concatenate to the normalized text of the whole document,
  not page by page.
\<close>

lemma chunking_reconstructs_text:
  "(\<forall>c\<in>set (extractPdfChunks env absPath). chunkText c \<noteq> [] \<and> length (chunkText c) \<le> 900)
   \<and> (\<forall>p. 1 \<le> p \<and> p \<le> pageCount env absPath \<longrightarrow>
         concat (map chunkText (filter (\<lambda>c. page c = p) (extractPdfChunks env absPath)))
           = extractRange env absPath (Some p) (Some p)
       \<and> (extractRange env absPath (Some p) (Some p) = [] \<longrightarrow>
            filter (\<lambda>c. page c = p) (extractPdfChunks env absPath) = []))
   \<and> (pageCount env absPath = 0 \<longrightarrow>
         concat (map chunkText (extractPdfChunks env absPath)) = extractRange env absPath None None)
   \<and> (\<forall>c\<in>set (extractPdfChunksJs envJs absPath).
         chunkText c \<noteq> [] \<and> length (chunkText c) \<le> 900)
   \<and> (\<forall>pdf. getDocument envJs absPath = Some pdf \<longrightarrow>
         concat (map chunkText (extractPdfChunksJs envJs absPath))
           = normalizeWhitespace (fullTextOf pdf))"
proof -
  have 1: "chunkText c \<noteq> [] \<and> length (chunkText c) \<le> 900"
    if "c \<in> set (extractPdfChunks env absPath)" for c
  proof (cases "0 < pageCount env absPath")
    case True
    with that obtain p where "c \<in> set (pageChunks env absPath p)"
      by (auto simp: extractPdfChunks_def Let_def)
    from pageChunks_member [OF this] show ?thesis by blast
  next
    case False
    with that have "c \<in> set (chunkLoop absPath (basename absPath) 1
                        (extractRange env absPath None None) 0)"
      by (auto simp: extractPdfChunks_def Let_def split: if_splits)
    from chunkLoop_member [OF this] show ?thesis by blast
  qed
  have 2: "concat (map chunkText (filter (\<lambda>c. page c = p) (extractPdfChunks env absPath)))
           = extractRange env absPath (Some p) (Some p)
       \<and> (extractRange env absPath (Some p) (Some p) = [] \<longrightarrow>
            filter (\<lambda>c. page c = p) (extractPdfChunks env absPath) = [])"
    if "1 \<le> p \<and> p \<le> pageCount env absPath" for p
  proof -
    from that have pos: "0 < pageCount env absPath" and mem: "p \<in> set [1..<Suc (pageCount env absPath)]"
      by auto
    have "filter (\<lambda>c. page c = p)
            (concat (map (pageChunks env absPath) [1..<Suc (pageCount env absPath)]))
          = pageChunks env absPath p"
      using mem by (intro filter_concat_by_key) (auto dest: pageChunks_member)
    with pos have "filter (\<lambda>c. page c = p) (extractPdfChunks env absPath) = pageChunks env absPath p"
      by (simp add: extractPdfChunks_def Let_def)
    then show ?thesis
      by (simp add: pageChunks_concat) (simp add: pageChunks_def)
  qed
  have 3: "concat (map chunkText (extractPdfChunks env absPath)) = extractRange env absPath None None"
    if "pageCount env absPath = 0"
    using that by (simp add: extractPdfChunks_def Let_def chunkLoop_concat)
  have 4: "chunkText c \<noteq> [] \<and> length (chunkText c) \<le> 900"
    if "c \<in> set (extractPdfChunksJs envJs absPath)" for c
  proof -
    from that obtain t where "c \<in> set (chunkLoop absPath (basename absPath) 1 t 0)"
      by (auto simp: extractPdfChunksJs_def Let_def split: option.splits if_splits)
    from chunkLoop_member [OF this] show ?thesis by blast
  qed
  have 5: "concat (map chunkText (extractPdfChunksJs envJs absPath))
           = normalizeWhitespace (fullTextOf pdf)"
    if "getDocument envJs absPath = Some pdf" for pdf
    using that by (simp add: extractPdfChunksJs_def Let_def chunkLoop_concat)
  from 1 2 3 4 5 show ?thesis by blast
qed

lemma pageCount_example: "pageCount exampleEnv ''/docs/a.pdf'' = 3"
  by code_simp

lemma extractRange_example_1:
  "extractRange exampleEnv ''/docs/a.pdf'' (Some (Suc 0)) (Some (Suc 0))
     = ''Floors must be swept daily.''"
  by code_simp

lemma extractRange_example_3: "extractRange exampleEnv ''/docs/a.pdf'' (Some 3) (Some 3) = []"
  by code_simp

lemma getDocument_example:
  "getDocument exampleEnvJs ''/docs/a.pdf'' = Some [[''Floors must be'', ''swept daily.''], [''Trash.'']]"
  by (simp add: exampleEnvJs_def)

lemma normalize_fullText_example:
  "normalizeWhitespace (fullTextOf [[''Floors must be'', ''swept daily.''], [''Trash.'']])
     = ''Floors must be swept daily. Trash.''"
  by code_simp

text \<open>
  The example file, in the variant on \<^verbatim>\<open>pdftotext\<close>: page 1 is reconstructed with its
  whitespace normalized, the blank page 3 has no chunk.
\<close>

lemma chunking_reconstructs_text_example:
  "concat (map chunkText (filter (\<lambda>c. page c = 1) (extractPdfChunks exampleEnv ''/docs/a.pdf'')))
     = ''Floors must be swept daily.''
   \<and> filter (\<lambda>c. page c = 3) (extractPdfChunks exampleEnv ''/docs/a.pdf'') = []
   \<and> concat (map chunkText (extractPdfChunksJs exampleEnvJs ''/docs/a.pdf''))
       = ''Floors must be swept daily. Trash.''"
proof -
  note inst = chunking_reconstructs_text [of exampleEnv "''/docs/a.pdf''" exampleEnvJs]
  from inst have page: "1 \<le> p \<and> p \<le> pageCount exampleEnv ''/docs/a.pdf'' \<longrightarrow>
         concat (map chunkText (filter (\<lambda>c. page c = p) (extractPdfChunks exampleEnv ''/docs/a.pdf'')))
           = extractRange exampleEnv ''/docs/a.pdf'' (Some p) (Some p)
       \<and> (extractRange exampleEnv ''/docs/a.pdf'' (Some p) (Some p) = [] \<longrightarrow>
            filter (\<lambda>c. page c = p) (extractPdfChunks exampleEnv ''/docs/a.pdf'') = [])" for p
    by blast
  from inst have js: "getDocument exampleEnvJs ''/docs/a.pdf'' = Some pdf \<longrightarrow>
         concat (map chunkText (extractPdfChunksJs exampleEnvJs ''/docs/a.pdf''))
           = normalizeWhitespace (fullTextOf pdf)" for pdf
    by blast
  from page [of 1] have "concat (map chunkText (filter (\<lambda>c. page c = 1)
      (extractPdfChunks exampleEnv ''/docs/a.pdf''))) = ''Floors must be swept daily.''"
    by (simp add: pageCount_example extractRange_example_1)
  moreover from page [of 3]
  have "filter (\<lambda>c. page c = 3) (extractPdfChunks exampleEnv ''/docs/a.pdf'') = []"
    by (simp add: pageCount_example extractRange_example_3)
  moreover from js getDocument_example
  have "concat (map chunkText (extractPdfChunksJs exampleEnvJs ''/docs/a.pdf''))
       = ''Floors must be swept daily. Trash.''"
    by (simp add: normalize_fullText_example)
  ultimately show ?thesis by blast
qed

text \<open>
  Claim C8 fails in the variant on \<^verbatim>\<open>pdfjs-dist\<close>, by the defect of claim C6. The example
  file has two pages. The normalized text of page 1 is \<^verbatim>\<open>Floors must be swept daily.\<close>, but
  the chunks of page 1 concatenate to the text of both pages; the normalized text of page 2
  is \<^verbatim>\<open>Trash.\<close>, not empty, but page 2 has no chunk.
\<close>

theorem extractPdfChunksJs_loses_page_text:
  "getDocument exampleEnvJs ''/docs/a.pdf''
     = Some [[''Floors must be'', ''swept daily.''], [''Trash.'']]
   \<and> normalizeWhitespace (join '' '' [''Floors must be'', ''swept daily.''])
       = ''Floors must be swept daily.''
   \<and> concat (map chunkText
         (filter (\<lambda>c. page c = 1) (extractPdfChunksJs exampleEnvJs ''/docs/a.pdf'')))
       = ''Floors must be swept daily. Trash.''
   \<and> normalizeWhitespace (join '' '' [''Trash.'']) = ''Trash.''
   \<and> filter (\<lambda>c. page c = 2) (extractPdfChunksJs exampleEnvJs ''/docs/a.pdf'') = []"
proof -
  have "normalizeWhitespace (join '' '' [''Floors must be'', ''swept daily.''])
          = ''Floors must be swept daily.''"
    by code_simp
  moreover have "normalizeWhitespace (join '' '' [''Trash.'']) = ''Trash.''"
    by code_simp
  moreover have "map page (extractPdfChunksJs exampleEnvJs ''/docs/a.pdf'') = [1]"
    and "map chunkText (extractPdfChunksJs exampleEnvJs ''/docs/a.pdf'')
           = [''Floors must be swept daily. Trash.'']"
    by code_simp+
  then have "concat (map chunkText
         (filter (\<lambda>c. page c = 1) (extractPdfChunksJs exampleEnvJs ''/docs/a.pdf'')))
       = ''Floors must be swept daily. Trash.''"
    and "filter (\<lambda>c. page c = 2) (extractPdfChunksJs exampleEnvJs ''/docs/a.pdf'') = []"
    by (cases "extractPdfChunksJs exampleEnvJs ''/docs/a.pdf''"; simp)+
  ultimately show ?thesis using getDocument_example by blast
qed

subsection \<open>Page numbers\<close>

text \<open>
  Claim C6 fails in the variant on \<^verbatim>\<open>pdfjs-dist\<close>: the page count is known (two pages), yet
  the text of both pages becomes one chunk of page 1. The variant on \<^verbatim>\<open>pdftotext\<close> keeps the
  page of every chunk (lemma \<open>extractPdfChunks_pages\<close> below).
\<close>

theorem extractPdfChunksJs_merges_pages:
  "extractPdfChunksJs exampleEnvJs ''/docs/a.pdf''
     = [\<lparr>chunkId = ''a.pdf-p1-0'', docPath = ''/docs/a.pdf'', docName = ''a.pdf'', page = 1,
         chunkText = ''Floors must be swept daily. Trash.''\<rparr>]"
  by code_simp

lemma extractPdfChunks_example:
  "extractPdfChunks exampleEnv ''/docs/a.pdf''
     = [\<lparr>chunkId = ''a.pdf-p1-0'', docPath = ''/docs/a.pdf'', docName = ''a.pdf'', page = 1,
         chunkText = ''Floors must be swept daily.''\<rparr>,
        \<lparr>chunkId = ''a.pdf-p2-0'', docPath = ''/docs/a.pdf'', docName = ''a.pdf'', page = 2,
         chunkText = ''Trash.''\<rparr>]"
  by code_simp

lemma extractPdfChunks_pages:
  assumes "c \<in> set (extractPdfChunks env absPath)"
  shows "if 0 < pageCount env absPath
         then 1 \<le> page c \<and> page c \<le> pageCount env absPath
            \<and> (\<exists>k. chunkText c
                     = take 900 (drop k (extractRange env absPath (Some (page c)) (Some (page c)))))
         else page c = 1
            \<and> (\<exists>k. chunkText c = take 900 (drop k (extractRange env absPath None None)))"
proof (cases "0 < pageCount env absPath")
  case True
  with assms have "\<exists>p\<in>set [1..<Suc (pageCount env absPath)]. c \<in> set (pageChunks env absPath p)"
    by (simp add: extractPdfChunks_def Let_def del: upt_Suc)
  then obtain p where p: "1 \<le> p" "p \<le> pageCount env absPath"
    and c: "c \<in> set (pageChunks env absPath p)"
    by auto
  from pageChunks_member [OF c] p True show ?thesis by auto
next
  case False
  with assms have "c \<in> set (chunkLoop absPath (basename absPath) 1
                      (extractRange env absPath None None) 0)"
    by (auto simp: extractPdfChunks_def Let_def split: if_splits)
  from chunkLoop_member [OF this] False show ?thesis by auto
qed

subsection \<open>Chunk identifiers\<close>

lemma isDigit_digitChar: "d < 10 \<Longrightarrow> isDigit (digitChar d)"
  by (simp add: isDigit_def digitChar_def)

lemma digitChar_inj: "a < 10 \<Longrightarrow> b < 10 \<Longrightarrow> digitChar a = digitChar b \<Longrightarrow> a = b"
proof -
  assume a: "a < 10" and b: "b < 10" and eq: "digitChar a = digitChar b"
  from eq have "(of_char (digitChar a) :: nat) = of_char (digitChar b)" by simp
  with a b show "a = b" by (simp add: digitChar_def)
qed

lemma showNat_digits: "c \<in> set (showNat n) \<Longrightarrow> isDigit c"
proof (induction n arbitrary: c rule: showNat.induct)
  case (1 n)
  show ?case
  proof (cases "n < 10")
    case True
    with "1.prems" show ?thesis
      by (subst (asm) showNat.simps) (simp add: isDigit_digitChar)
  next
    case False
    with "1.prems" have "c \<in> set (showNat (n div 10)) \<or> c = digitChar (n mod 10)"
      by (subst (asm) showNat.simps) auto
    with False "1.IH" show ?thesis
      by (auto simp: isDigit_digitChar)
  qed
qed

lemma showNat_nonempty: "showNat n \<noteq> []"
  by (subst showNat.simps) simp

lemma showNat_inj: "showNat n = showNat m \<Longrightarrow> n = m"
proof (induction n arbitrary: m rule: showNat.induct)
  case (1 n)
  show ?case
  proof (cases "n < 10")
    case n: True
    show ?thesis
    proof (cases "m < 10")
      case True
      with n "1.prems" show ?thesis
        by (subst (asm) showNat.simps, subst (asm) (2) showNat.simps) (simp add: digitChar_inj)
    next
      case False
      with n "1.prems" have "[digitChar n] = showNat (m div 10) @ [digitChar (m mod 10)]"
        by (subst (asm) showNat.simps, subst (asm) (2) showNat.simps) simp
      then show ?thesis using showNat_nonempty [of "m div 10"] by auto
    qed
  next
    case n: False
    show ?thesis
    proof (cases "m < 10")
      case True
      with n "1.prems" have "showNat (n div 10) @ [digitChar (n mod 10)] = [digitChar m]"
        by (subst (asm) showNat.simps, subst (asm) (2) showNat.simps) simp
      then show ?thesis using showNat_nonempty [of "n div 10"] by auto
    next
      case False
      with n "1.prems"
      have "showNat (n div 10) @ [digitChar (n mod 10)] = showNat (m div 10) @ [digitChar (m mod 10)]"
        by (subst (asm) showNat.simps, subst (asm) (2) showNat.simps) simp
      then have "showNat (n div 10) = showNat (m div 10)"
        and "digitChar (n mod 10) = digitChar (m mod 10)" by simp_all
      with n "1.IH" have "n div 10 = m div 10" and "n mod 10 = m mod 10"
        by (auto intro: digitChar_inj)
      then show ?thesis by (metis div_mult_mod_eq)
    qed
  qed
qed

lemma digits_suffix_unique:
  assumes "xs @ c # ds = xs' @ c' # ds'"
    and "\<forall>x\<in>set ds. isDigit x" and "\<forall>x\<in>set ds'. isDigit x"
    and "\<not> isDigit c" and "\<not> isDigit c'"
  shows "xs = xs' \<and> ds = ds'"
proof -
  have tw: "takeWhile isDigit (rev (ys @ b # es)) = rev es"
    if "\<forall>x\<in>set es. isDigit x" "\<not> isDigit b" for ys b es
  proof -
    from that(1) have "takeWhile isDigit (rev es @ b # rev ys)
                         = rev es @ takeWhile isDigit (b # rev ys)"
      by (intro takeWhile_append2) simp
    with that(2) show ?thesis by simp
  qed
  from assms(1) have "takeWhile isDigit (rev (xs @ c # ds)) = takeWhile isDigit (rev (xs' @ c' # ds'))"
    by (rule arg_cong)
  then have "rev ds = rev ds'"
    by (simp only: tw [OF assms(2) assms(4)] tw [OF assms(3) assms(5)])
  then have "ds = ds'" by simp
  with assms(1) show ?thesis by simp
qed

lemma not_digit_dash: "\<not> isDigit CHR ''-''" "\<not> isDigit CHR ''p''"
  by (simp_all add: isDigit_def)

lemma idOf_inj:
  assumes "idOf d p k = idOf d' p' k'"
  shows "d = d' \<and> p = p' \<and> k = k'"
proof -
  have digits: "\<forall>x\<in>set (showNat n). isDigit x" for n
    by (auto dest: showNat_digits)
  from assms
  have "(d @ ''-p'' @ showNat p) @ CHR ''-'' # showNat k
          = (d' @ ''-p'' @ showNat p') @ CHR ''-'' # showNat k'"
    by (simp add: idOf_def)
  from digits_suffix_unique [OF this digits digits not_digit_dash(1) not_digit_dash(1)]
  have 1: "d @ ''-p'' @ showNat p = d' @ ''-p'' @ showNat p'" and k: "showNat k = showNat k'"
    by simp_all
  from 1 have "(d @ ''-'') @ CHR ''p'' # showNat p = (d' @ ''-'') @ CHR ''p'' # showNat p'"
    by simp
  from digits_suffix_unique [OF this digits digits not_digit_dash(2) not_digit_dash(2)]
  have "d @ ''-'' = d' @ ''-''" and p: "showNat p = showNat p'"
    by simp_all
  then have "d = d'" by simp
  with k p show ?thesis by (auto dest: showNat_inj)
qed

lemma chunkLoop_ids_distinct: "distinct (map chunkId (chunkLoop a d p t i))"
proof (induction a d p t i rule: chunkLoop.induct)
  case (1 a d p t i)
  show ?case
  proof (cases "i < length t")
    case True
    have "idOf d p i \<notin> chunkId ` set (chunkLoop a d p t (i + targetChunkChars))"
    proof
      assume "idOf d p i \<in> chunkId ` set (chunkLoop a d p t (i + targetChunkChars))"
      then obtain c where c: "c \<in> set (chunkLoop a d p t (i + targetChunkChars))"
        and eq: "idOf d p i = chunkId c" by blast
      from chunkLoop_member [OF c] obtain k where "i + targetChunkChars \<le> k"
        and "chunkId c = idOf d p k" by blast
      with eq idOf_inj [of d p i d p k] show False
        by (simp add: targetChunkChars_def)
    qed
    with True "1.IH" show ?thesis
      by (subst chunkLoop.simps) (simp add: idOf_def)
  next
    case False
    then show ?thesis by (subst chunkLoop.simps) simp
  qed
qed

lemma distinct_ids_concat:
  assumes "distinct (map key qs)"
    and "\<And>q. q \<in> set qs \<Longrightarrow> distinct (map chunkId (g q))"
    and "\<And>q c. q \<in> set qs \<Longrightarrow> c \<in> set (g q) \<Longrightarrow>
           tag c = key q \<and> (\<exists>k. chunkId c = idOf (docName c) (page c) k)"
    and "\<And>c c'. docName c = docName c' \<Longrightarrow> page c = page c' \<Longrightarrow> tag c = tag c'"
  shows "distinct (map chunkId (concat (map g qs)))"
  using assms(1-3)
proof (induction qs)
  case Nil
  then show ?case by simp
next
  case (Cons q qs)
  have "chunkId c \<noteq> chunkId c'"
    if c: "c \<in> set (g q)" and c': "c' \<in> set (g q')" and q': "q' \<in> set qs" for c c' q'
  proof
    assume eq: "chunkId c = chunkId c'"
    from Cons.prems(3) [of q c] c obtain k where
      1: "tag c = key q" "chunkId c = idOf (docName c) (page c) k" by auto
    from Cons.prems(3) [of q' c'] c' q' obtain k' where
      2: "tag c' = key q'" "chunkId c' = idOf (docName c') (page c') k'" by auto
    from eq 1(2) 2(2) have "docName c = docName c' \<and> page c = page c'"
      using idOf_inj [of "docName c" "page c" k "docName c'" "page c'" k'] by simp
    then have "tag c = tag c'" using assms(4) by blast
    with 1(1) 2(1) have "key q = key q'" by simp
    with Cons.prems(1) q' show False by auto
  qed
  then have "chunkId ` set (g q) \<inter> chunkId ` (\<Union>q'\<in>set qs. set (g q')) = {}"
    by blast
  moreover have "distinct (map chunkId (g q))" using Cons.prems(2) by simp
  moreover have "distinct (map chunkId (concat (map g qs)))"
  proof (rule Cons.IH)
    show "distinct (map key qs)" using Cons.prems(1) by simp
    show "distinct (map chunkId (g q'))" if "q' \<in> set qs" for q'
      using Cons.prems(2) [of q'] that by simp
    show "tag c = key q' \<and> (\<exists>k. chunkId c = idOf (docName c) (page c) k)"
      if "q' \<in> set qs" "c \<in> set (g q')" for q' c
      using Cons.prems(3) [of q' c] that by simp
  qed
  ultimately show ?case by simp
qed

lemma pageChunks_ids_distinct: "distinct (map chunkId (pageChunks env absPath p))"
  by (simp add: pageChunks_def Let_def chunkLoop_ids_distinct)

lemma extractPdfChunks_ids:
  assumes "c \<in> set (extractPdfChunks env absPath)"
  shows "docName c = basename absPath \<and> (\<exists>k. chunkId c = idOf (docName c) (page c) k)"
proof (cases "0 < pageCount env absPath")
  case True
  with assms have "\<exists>p\<in>set [1..<Suc (pageCount env absPath)]. c \<in> set (pageChunks env absPath p)"
    by (simp add: extractPdfChunks_def Let_def del: upt_Suc)
  then obtain p where "c \<in> set (pageChunks env absPath p)" by blast
  from pageChunks_member [OF this] show ?thesis by auto
next
  case False
  with assms have "c \<in> set (chunkLoop absPath (basename absPath) 1
                      (extractRange env absPath None None) 0)"
    by (auto simp: extractPdfChunks_def Let_def split: if_splits)
  from chunkLoop_member [OF this] show ?thesis by auto
qed

lemma extractPdfChunks_ids_distinct: "distinct (map chunkId (extractPdfChunks env absPath))"
proof (cases "0 < pageCount env absPath")
  case True
  have "distinct (map chunkId (concat (map (pageChunks env absPath)
                                  [1..<Suc (pageCount env absPath)])))"
  proof (rule distinct_ids_concat [where key = "\<lambda>q. q" and tag = page])
    show "distinct (map (\<lambda>q. q) [1..<Suc (pageCount env absPath)])" by simp
    show "distinct (map chunkId (pageChunks env absPath q))" for q
      by (rule pageChunks_ids_distinct)
    show "page c = q \<and> (\<exists>k. chunkId c = idOf (docName c) (page c) k)"
      if "c \<in> set (pageChunks env absPath q)" for q c
      using pageChunks_member [OF that] by auto
    show "page c = page c'" if "page c = page c'" for c c' :: IndexedChunk
      by (rule that)
  qed
  with True show ?thesis by (simp add: extractPdfChunks_def Let_def)
next
  case False
  then show ?thesis
    by (simp add: extractPdfChunks_def Let_def chunkLoop_ids_distinct)
qed

lemma extractPdfChunksJs_ids:
  assumes "c \<in> set (extractPdfChunksJs env absPath)"
  shows "docName c = basename absPath \<and> (\<exists>k. chunkId c = idOf (docName c) (page c) k)"
proof -
  from assms obtain t where "c \<in> set (chunkLoop absPath (basename absPath) 1 t 0)"
    by (auto simp: extractPdfChunksJs_def Let_def split: option.splits if_splits)
  from chunkLoop_member [OF this] show ?thesis by auto
qed

lemma extractPdfChunksJs_ids_distinct: "distinct (map chunkId (extractPdfChunksJs env absPath))"
  by (simp add: extractPdfChunksJs_def Let_def chunkLoop_ids_distinct split: option.splits)

lemma concat_existing:
  "concat (map (\<lambda>p. let abs = f p in if ex abs then g abs else []) ps)
     = concat (map g (filter ex (map f ps)))"
  by (induction ps) (simp_all add: Let_def)

lemma chunks_buildIndex:
  "chunks (buildIndex env filePaths)
     = concat (map (extractPdfChunks env) (filter (existsSync env) (map (absolute env) filePaths)))"
  unfolding buildIndex_def indexOf_sel
  using concat_existing [of "absolute env" "existsSync env" "extractPdfChunks env" filePaths]
  by (simp add: absolute_def [abs_def])

lemma chunks_buildIndexJs:
  "chunks (buildIndexJs env filePaths)
     = concat (map (extractPdfChunksJs env)
         (filter (existsSyncJs env) (map (absoluteJs env) filePaths)))"
  unfolding buildIndexJs_def indexOf_sel
  using concat_existing [of "absoluteJs env" "existsSyncJs env" "extractPdfChunksJs env" filePaths]
  by (simp add: absoluteJs_def [abs_def])

text \<open>
  Claim C9, as the code has it. The identifiers of the chunks of one document are pairwise
  distinct, and those of the whole index are when the configured files that exist have
  pairwise distinct base names: the identifier is built from the base name, not the path.
\<close>

theorem chunk_ids_distinct:
  "(distinct (map basename (filter (existsSync env) (map (absolute env) filePaths))) \<longrightarrow>
      distinct (map chunkId (chunks (buildIndex env filePaths))))
   \<and> (distinct (map basename (filter (existsSyncJs envJs) (map (absoluteJs envJs) filePaths))) \<longrightarrow>
      distinct (map chunkId (chunks (buildIndexJs envJs filePaths))))
   \<and> distinct (map chunkId (extractPdfChunks env absPath))
   \<and> distinct (map chunkId (extractPdfChunksJs envJs absPath))"
proof -
  have 1: "distinct (map chunkId (chunks (buildIndex env filePaths)))"
    if "distinct (map basename (filter (existsSync env) (map (absolute env) filePaths)))"
    unfolding chunks_buildIndex
  proof (rule distinct_ids_concat [where key = basename and tag = docName])
    show "distinct (map basename (filter (existsSync env) (map (absolute env) filePaths)))"
      by (rule that)
    show "distinct (map chunkId (extractPdfChunks env q))" for q
      by (rule extractPdfChunks_ids_distinct)
    show "docName c = basename q \<and> (\<exists>k. chunkId c = idOf (docName c) (page c) k)"
      if "c \<in> set (extractPdfChunks env q)" for q c
      using that by (rule extractPdfChunks_ids)
    show "docName c = docName c'" if "docName c = docName c'" for c c' :: IndexedChunk
      by (rule that)
  qed
  have 2: "distinct (map chunkId (chunks (buildIndexJs envJs filePaths)))"
    if "distinct (map basename (filter (existsSyncJs envJs) (map (absoluteJs envJs) filePaths)))"
    unfolding chunks_buildIndexJs
  proof (rule distinct_ids_concat [where key = basename and tag = docName])
    show "distinct (map basename (filter (existsSyncJs envJs) (map (absoluteJs envJs) filePaths)))"
      by (rule that)
    show "distinct (map chunkId (extractPdfChunksJs envJs q))" for q
      by (rule extractPdfChunksJs_ids_distinct)
    show "docName c = basename q \<and> (\<exists>k. chunkId c = idOf (docName c) (page c) k)"
      if "c \<in> set (extractPdfChunksJs envJs q)" for q c
      using that by (rule extractPdfChunksJs_ids)
    show "docName c = docName c'" if "docName c = docName c'" for c c' :: IndexedChunk
      by (rule that)
  qed
  from 1 2 extractPdfChunks_ids_distinct extractPdfChunksJs_ids_distinct show ?thesis by blast
qed

lemma existing_example:
  "filter (existsSync exampleEnv)
     (map (absolute exampleEnv) [''/docs/a.pdf'', ''missing.pdf'', ''/docs/b.pdf''])
     = [''/docs/a.pdf'', ''/docs/b.pdf'']"
  by (simp add: exampleEnv_def absolute_def isAbsolute_def)

lemma existing_exampleJs:
  "filter (existsSyncJs exampleEnvJs) (map (absoluteJs exampleEnvJs) [''/docs/a.pdf'', ''/docs/b.pdf''])
     = [''/docs/a.pdf'', ''/docs/b.pdf'']"
  by (simp add: exampleEnvJs_def absoluteJs_def isAbsolute_def)

lemma basename_example:
  "basename ''/docs/a.pdf'' = ''a.pdf''" "basename ''/docs/b.pdf'' = ''b.pdf''"
  by code_simp+

lemma extractPdfChunks_example_b:
  "extractPdfChunks exampleEnv ''/docs/b.pdf''
     = [\<lparr>chunkId = ''b.pdf-p1-0'', docPath = ''/docs/b.pdf'', docName = ''b.pdf'', page = 1,
         chunkText = ''Mop the floors.''\<rparr>]"
  by code_simp

lemma extractPdfChunksJs_example:
  "map chunkId (extractPdfChunksJs exampleEnvJs ''/docs/a.pdf'') = [''a.pdf-p1-0'']"
  "map chunkId (extractPdfChunksJs exampleEnvJs ''/docs/b.pdf'') = [''b.pdf-p1-0'']"
  by code_simp+

text \<open>
  Two existing files of different names, with a missing file between them, in the
  variant on \<^verbatim>\<open>pdftotext\<close>; the two files in the variant on \<^verbatim>\<open>pdfjs-dist\<close>.
\<close>

theorem chunk_ids_distinct_witness:
  "map chunkId (chunks (buildIndex exampleEnv [''/docs/a.pdf'', ''missing.pdf'', ''/docs/b.pdf'']))
     = [''a.pdf-p1-0'', ''a.pdf-p2-0'', ''b.pdf-p1-0'']
   \<and> distinct (map chunkId
         (chunks (buildIndex exampleEnv [''/docs/a.pdf'', ''missing.pdf'', ''/docs/b.pdf''])))
   \<and> map chunkId (chunks (buildIndexJs exampleEnvJs [''/docs/a.pdf'', ''/docs/b.pdf'']))
       = [''a.pdf-p1-0'', ''b.pdf-p1-0'']
   \<and> distinct (map chunkId (chunks (buildIndexJs exampleEnvJs [''/docs/a.pdf'', ''/docs/b.pdf''])))
   \<and> distinct (map chunkId (extractPdfChunks exampleEnv ''/docs/a.pdf''))"
proof -
  have names: "distinct (map basename (filter (existsSync exampleEnv)
          (map (absolute exampleEnv) [''/docs/a.pdf'', ''missing.pdf'', ''/docs/b.pdf''])))"
    unfolding existing_example by (simp add: basename_example)
  have namesJs: "distinct (map basename (filter (existsSyncJs exampleEnvJs)
          (map (absoluteJs exampleEnvJs) [''/docs/a.pdf'', ''/docs/b.pdf''])))"
    unfolding existing_exampleJs by (simp add: basename_example)
  have ids: "map chunkId
      (chunks (buildIndex exampleEnv [''/docs/a.pdf'', ''missing.pdf'', ''/docs/b.pdf'']))
      = [''a.pdf-p1-0'', ''a.pdf-p2-0'', ''b.pdf-p1-0'']"
    unfolding chunks_buildIndex existing_example
    by (simp add: extractPdfChunks_example extractPdfChunks_example_b)
  have idsJs: "map chunkId (chunks (buildIndexJs exampleEnvJs [''/docs/a.pdf'', ''/docs/b.pdf'']))
      = [''a.pdf-p1-0'', ''b.pdf-p1-0'']"
    unfolding chunks_buildIndexJs existing_exampleJs
    by (simp add: extractPdfChunksJs_example)
  from names chunk_ids_distinct [where env = exampleEnv
      and filePaths = "[''/docs/a.pdf'', ''missing.pdf'', ''/docs/b.pdf'']"
      and envJs = exampleEnvJs and absPath = "''/docs/a.pdf''"]
  have d1: "distinct (map chunkId
         (chunks (buildIndex exampleEnv [''/docs/a.pdf'', ''missing.pdf'', ''/docs/b.pdf''])))"
    and d3: "distinct (map chunkId (extractPdfChunks exampleEnv ''/docs/a.pdf''))"
    by blast+
  from namesJs chunk_ids_distinct [where env = exampleEnv
      and filePaths = "[''/docs/a.pdf'', ''/docs/b.pdf'']"
      and envJs = exampleEnvJs and absPath = "''/docs/a.pdf''"]
  have d2: "distinct (map chunkId
         (chunks (buildIndexJs exampleEnvJs [''/docs/a.pdf'', ''/docs/b.pdf''])))"
    by blast
  from ids idsJs d1 d2 d3 show ?thesis by blast
qed

lemma extractPdfChunks_example_archive:
  "extractPdfChunks exampleEnv ''/archive/a.pdf''
     = [\<lparr>chunkId = ''a.pdf-p1-0'', docPath = ''/archive/a.pdf'', docName = ''a.pdf'', page = 1,
         chunkText = ''Old floors.''\<rparr>]"
  by code_simp

lemma existing_example_both:
  "filter (existsSync exampleEnv) (map (absolute exampleEnv) [''/docs/a.pdf'', ''/archive/a.pdf''])
     = [''/docs/a.pdf'', ''/archive/a.pdf'']"
  by (simp add: exampleEnv_def absolute_def isAbsolute_def)

text \<open>
  Claim C9 as stated fails: two files of the same name in different directories both
  yield the identifier \<^verbatim>\<open>a.pdf-p1-0\<close>.
\<close>

theorem same_base_name_same_id:
  "map chunkId (chunks (buildIndex exampleEnv [''/docs/a.pdf'', ''/archive/a.pdf'']))
     = [''a.pdf-p1-0'', ''a.pdf-p2-0'', ''a.pdf-p1-0'']
   \<and> \<not> distinct (map chunkId (chunks (buildIndex exampleEnv [''/docs/a.pdf'', ''/archive/a.pdf''])))"
  unfolding chunks_buildIndex existing_example_both
  by (simp add: extractPdfChunks_example extractPdfChunks_example_archive)

lemma buildIndex_example: "buildIndex exampleEnv [''/docs/a.pdf''] = indexOf exampleCorpus"
proof -
  have "filter (existsSync exampleEnv) (map (absolute exampleEnv) [''/docs/a.pdf'']) = [''/docs/a.pdf'']"
    by (simp add: exampleEnv_def absolute_def isAbsolute_def)
  then have "chunks (buildIndex exampleEnv [''/docs/a.pdf'']) = exampleCorpus"
    unfolding chunks_buildIndex
    by (simp add: extractPdfChunks_example exampleCorpus_def exampleChunk_def
        showNat_1 showNat_2)
  then show ?thesis
    by (simp add: buildIndex_def)
qed

text \<open>
  The example corpus is what the build yields for the example file; there the token
  \<^verbatim>\<open>trash\<close> has document frequency 1.
\<close>

theorem df_counts_chunks_witness:
  "df (indexOf exampleCorpus) ''trash'' = Some 1
   \<and> df (buildIndex exampleEnv [''/docs/a.pdf'']) ''trash'' = Some 1"
  using df_counts_chunks [of exampleCorpus "''trash''" exampleEnv "[''/docs/a.pdf'']"]
  by (simp add: chunksWith_trash_example buildIndex_example)

end
